theory Spec2Isabelle
  imports Main "HOL-Library.Word"
begin

unbundle bit_operations_syntax

section \<open>Data model (pson.h)\<close>

type_synonym byte = "8 word"

text \<open>
  \<^verbatim>\<open>enum pb_wire_type\<close> and \<^verbatim>\<open>enum pson::field_type\<close>. The decoder stores any
  field number it reads as the type of a value (\<^verbatim>\<open>value.set_type((pson::field_type)field_number)\<close>),
  so both are kept as the 32-bit numbers they are on the wire, with the enumerators as names
  for their values.
\<close>

abbreviation (input) varint :: "32 word" where "varint \<equiv> 0"
abbreviation (input) fixed_64 :: "32 word" where "fixed_64 \<equiv> 1"
abbreviation (input) length_delimited :: "32 word" where "length_delimited \<equiv> 2"
abbreviation (input) fixed_32 :: "32 word" where "fixed_32 \<equiv> 5"

abbreviation (input) null_field :: "32 word" where "null_field \<equiv> 0"
abbreviation (input) varint_field :: "32 word" where "varint_field \<equiv> 1"
abbreviation (input) svarint_field :: "32 word" where "svarint_field \<equiv> 2"
abbreviation (input) float_field :: "32 word" where "float_field \<equiv> 3"
abbreviation (input) double_field :: "32 word" where "double_field \<equiv> 4"
abbreviation (input) true_field :: "32 word" where "true_field \<equiv> 5"
abbreviation (input) false_field :: "32 word" where "false_field \<equiv> 6"
abbreviation (input) zero_field :: "32 word" where "zero_field \<equiv> 7"
abbreviation (input) one_field :: "32 word" where "one_field \<equiv> 8"
abbreviation (input) string_field :: "32 word" where "string_field \<equiv> 9"
abbreviation (input) bytes_field :: "32 word" where "bytes_field \<equiv> 10"
abbreviation (input) object_field :: "32 word" where "object_field \<equiv> 11"
abbreviation (input) array_field :: "32 word" where "array_field \<equiv> 12"

text \<open>
  A \<^verbatim>\<open>pson\<close> is the pair of its members \<^verbatim>\<open>field_type_\<close> and \<^verbatim>\<open>value_\<close>. The untyped
  pointer \<^verbatim>\<open>void* value_\<close> is what it points to: nothing (\<^verbatim>\<open>NULL\<close>), a block of bytes
  from the pool, a \<^verbatim>\<open>pson_object\<close> (the list of its \<^verbatim>\<open>pson_pair\<close> items, each the name
  block and the value) or a \<^verbatim>\<open>pson_array\<close> (the list of its items). The tag and the
  payload are independent members, as in the source: the tag alone does not say what the
  pointer holds.
\<close>

datatype pson = Pson (get_type: "32 word") (get_value: pvalue)
  and pvalue = Null | Buf "byte list" | Obj "(byte list \<times> pson) list" | Arr "pson list"

type_synonym pson_pair = "byte list \<times> pson"

text \<open>\<^verbatim>\<open>pson() : field_type_(null_field), value_(NULL)\<close>; also \<^verbatim>\<open>pson::empty_value\<close>.\<close>

definition empty_value :: pson where
  "empty_value = Pson null_field Null"

section \<open>The varint codec of class pson\<close>

text \<open>
  \<^verbatim>\<open>size_t get_varint_size(uint64_t value) const{
      size_t size = 1;
      while(value>>=7) size++;
      return size;
  }\<close>
\<close>

function get_varint_size_loop :: "64 word \<Rightarrow> nat \<Rightarrow> nat" where
  "get_varint_size_loop v sz =
     (let v' = drop_bit 7 v in
      if v' \<noteq> 0 then get_varint_size_loop v' (sz + 1) else sz)"
  by pat_completeness auto
termination
proof (relation "measure (\<lambda>(v, sz). unat v)")
  show "wf (measure (\<lambda>(v :: 64 word, sz :: nat). unat v))" by simp
next
  fix v :: "64 word" and sz :: nat and v' :: "64 word"
  assume a: "v' = drop_bit 7 v" "v' \<noteq> 0"
  have "unat v' = unat v div 128" using a by (simp add: drop_bit_eq_div unat_div)
  moreover have "unat v' \<noteq> 0" using a by (simp add: unat_eq_0)
  ultimately have "unat v' < unat v" by simp
  then show "((v', sz + 1), (v, sz)) \<in> measure (\<lambda>(v, sz). unat v)" by simp
qed

definition get_varint_size :: "64 word \<Rightarrow> nat" where
  "get_varint_size v = get_varint_size_loop v 1"

text \<open>
  \<^verbatim>\<open>void pb_encode_varint(uint8_t* buffer, uint64_t value) const\<close> of class pson: the
  result is the bytes it stores at \<^verbatim>\<open>buffer[0], buffer[1], ...\<close>, in that order.
  \<^verbatim>\<open>do {
      uint8_t byte = (uint8_t)(value & 0x7F);
      value >>= 7;
      if(value) byte |= 0x80;
      buffer[count] = byte;
      count++;
  } while(value);\<close>
\<close>

function pson_pb_encode_varint :: "64 word \<Rightarrow> byte list" where
  "pson_pb_encode_varint v =
     (let byte = (ucast (v AND 0x7F) :: byte);
          v' = drop_bit 7 v;
          byte' = (if v' \<noteq> 0 then byte OR 0x80 else byte)
      in if v' \<noteq> 0 then byte' # pson_pb_encode_varint v' else [byte'])"
  by pat_completeness auto
termination
proof (relation "measure unat")
  show "wf (measure (unat :: 64 word \<Rightarrow> nat))" by simp
next
  fix v :: "64 word" and byte :: byte and v' :: "64 word" and byte' :: byte
  assume a: "v' = drop_bit 7 v" "v' \<noteq> 0"
  have "unat v' = unat v div 128" using a by (simp add: drop_bit_eq_div unat_div)
  moreover have "unat v' \<noteq> 0" using a by (simp add: unat_eq_0)
  ultimately have "unat v' < unat v" by simp
  then show "(v', v) \<in> measure unat" by simp
qed

text \<open>
  \<^verbatim>\<open>uint64_t pb_decode_varint(uint8_t* buffer) const\<close> of class pson, on a block of
  bytes (the \<^verbatim>\<open>NULL\<close> case, which returns 0, is at the callers):
  \<^verbatim>\<open>do{
      byte = buffer[pos];
      value |= (uint64_t)(byte&0x7F) << pos*7;
      pos++;
  }while(byte>=0x80);\<close>
  The list is the block from \<^verbatim>\<open>buffer[pos]\<close> on. Reading past the end of the block and
  shifting a 64-bit value by 64 or more are undefined in C++: the result is \<open>None\<close>.
\<close>

fun pson_pb_decode_varint_loop :: "byte list \<Rightarrow> nat \<Rightarrow> 64 word \<Rightarrow> 64 word option" where
  "pson_pb_decode_varint_loop [] pos v = None"
| "pson_pb_decode_varint_loop (byte # rest) pos v =
     (if 64 \<le> pos * 7 then None
      else let v' = v OR push_bit (pos * 7) (ucast (byte AND 0x7F))
           in if 0x80 \<le> byte then pson_pb_decode_varint_loop rest (pos + 1) v'
              else Some v')"

definition pson_pb_decode_varint :: "byte list \<Rightarrow> 64 word option" where
  "pson_pb_decode_varint buffer = pson_pb_decode_varint_loop buffer 0 0"

text \<open>
  The varint of the spec, in the spec's words (``little-endian base-128 groups,
  continuation bit = 0x80 on all but the final byte''), on natural numbers. It is what the
  two encoders of the source are compared with.
\<close>

fun varint_spec :: "nat \<Rightarrow> byte list" where
  "varint_spec n =
     (if n < 128 then [of_nat n] else (of_nat (n mod 128) OR 0x80) # varint_spec (n div 128))"

declare varint_spec.simps [simp del]

section \<open>Assignment to a value\<close>

text \<open>
  \<^verbatim>\<open>template<class T>
  void operator=(T value)
  {
      if(value==0){
          field_type_ = zero_field;
          return;
      }else if(value==1) {
          field_type_ = one_field;
          return;
      }

      if(value<0){
          field_type_ = svarint_field;
      }else{
          field_type_ = varint_field;
      }
      uint64_t uint_value = value>0 ? value : -value;
      value_ = pool.allocate(pson::get_varint_size(uint_value));
      pb_encode_varint((uint8_t*)value_, uint_value);
  }\<close>
  The template is instantiated at the integer type \<^verbatim>\<open>T\<close> of the value assigned. The
  zero and one branches return before \<^verbatim>\<open>value_\<close> is touched. In the other branches
  the block has \<^verbatim>\<open>get_varint_size(uint_value)\<close> bytes and \<^verbatim>\<open>pb_encode_varint\<close> fills it.

  At a signed \<^verbatim>\<open>T\<close> of the width of \<^verbatim>\<open>int\<close> or wider (\<open>'a\<close> is 32 for \<^verbatim>\<open>int\<close> and 64
  for \<^verbatim>\<open>int64_t\<close>) the comparisons are signed, \<^verbatim>\<open>value>0 ? value : -value\<close> is computed
  in \<^verbatim>\<open>T\<close>, and its conversion to \<^verbatim>\<open>uint64_t\<close> extends the sign. At the least value
  of \<^verbatim>\<open>T\<close> the negation overflows, which C++ leaves undefined: \<open>ov\<close> stands for whatever
  value of \<^verbatim>\<open>T\<close> it yields (the value itself, where the negation wraps around). A value
  of a narrower type is converted to \<^verbatim>\<open>int\<close> before any of the operators is applied
  (integer promotion).
\<close>

definition c_neg :: "'a::len word \<Rightarrow> 'a word \<Rightarrow> 'a word" where
  "c_neg ov v = (if v = 2 ^ (LENGTH('a) - 1) then ov else - v)"

definition assign_signed :: "'a::len word \<Rightarrow> 'a word \<Rightarrow> pson \<Rightarrow> pson" where
  "assign_signed ov v p =
     (if v = 0 then Pson zero_field (get_value p)
      else if v = 1 then Pson one_field (get_value p)
      else let t = (if v <s 0 then svarint_field else varint_field);
               uint_value = (scast (if 0 <s v then v else c_neg ov v) :: 64 word)
           in Pson t (Buf (pson_pb_encode_varint uint_value)))"

text \<open>
  At an unsigned \<^verbatim>\<open>T\<close> of the width of \<^verbatim>\<open>unsigned\<close> or wider (\<open>'a\<close> is 32 or 64) the
  comparisons are unsigned, so that \<^verbatim>\<open>value<0\<close> is false, the negation wraps around, and
  the conversion to \<^verbatim>\<open>uint64_t\<close> extends with zeros.
\<close>

definition assign_unsigned :: "'a::len word \<Rightarrow> pson \<Rightarrow> pson" where
  "assign_unsigned v p =
     (if v = 0 then Pson zero_field (get_value p)
      else if v = 1 then Pson one_field (get_value p)
      else let t = (if v < 0 then svarint_field else varint_field);
               uint_value = (ucast (if 0 < v then v else - v) :: 64 word)
           in Pson t (Buf (pson_pb_encode_varint uint_value)))"

text \<open>\<^verbatim>\<open>void operator=(bool value){ field_type_ = value ? true_field : false_field; }\<close>\<close>

definition assign_bool :: "bool \<Rightarrow> pson \<Rightarrow> pson" where
  "assign_bool v p = Pson (if v then true_field else false_field) (get_value p)"

text \<open>
  \<^verbatim>\<open>void operator=(const char *str)\<close>: the argument is the characters before the
  terminator; \<^verbatim>\<open>strlen(str)+1\<close> bytes are copied, the terminator included.
\<close>

definition assign_string :: "byte list \<Rightarrow> pson \<Rightarrow> pson" where
  "assign_string str p = Pson string_field (Buf (takeWhile (\<lambda>c. c \<noteq> 0) str @ [0]))"

text \<open>
  \<^verbatim>\<open>void set_bytes(const void* bytes, size_t size)\<close>: a block of
  \<^verbatim>\<open>varint_size+size\<close> bytes, the length as a varint and then the bytes.
\<close>

definition set_bytes :: "byte list \<Rightarrow> pson \<Rightarrow> pson" where
  "set_bytes bytes p =
     Pson bytes_field (Buf (pson_pb_encode_varint (of_nat (length bytes)) @ bytes))"

section \<open>Containers and objects\<close>

text \<open>
  \<^verbatim>\<open>T& create_item()\<close> of \<^verbatim>\<open>pson_container\<close> links a new item behind the last one and
  returns it for the caller to fill; the second argument is the item as filled.
\<close>

definition create_item :: "'a list \<Rightarrow> 'a \<Rightarrow> 'a list" where
  "create_item items item = items @ [item]"

text \<open>
  \<^verbatim>\<open>strcmp(it.item().name(), name)==0\<close>: two C strings are equal when their characters
  before the terminator agree. A name is the block \<^verbatim>\<open>name_\<close> of a pair or the argument
  of \<^verbatim>\<open>operator[]\<close>; the blocks that \<^verbatim>\<open>set_name\<close> and the decoder fill carry a terminator.
\<close>

definition strcmp_eq :: "byte list \<Rightarrow> byte list \<Rightarrow> bool" where
  "strcmp_eq a b = (takeWhile (\<lambda>c. c \<noteq> 0) a = takeWhile (\<lambda>c. c \<noteq> 0) b)"

text \<open>
  \<^verbatim>\<open>void set_name(const char *name) {
      size_t name_size = strlen(name) + 1;
      memcpy(allocate_name(name_size), name, name_size);
  }\<close>
  The result is the new block \<^verbatim>\<open>name_\<close>.
\<close>

definition set_name :: "byte list \<Rightarrow> byte list" where
  "set_name name = takeWhile (\<lambda>c. c \<noteq> 0) name @ [0]"

text \<open>
  \<^verbatim>\<open>const pson & operator[](const char *name) const{
      for(iterator it=begin(); it.valid(); it.next()){
          if(strcmp(it.item().name(), name)==0){
              return it.item().value();
          }
      }
      return pson::empty_value;
  };\<close>
\<close>

fun subscript_const :: "pson_pair list \<Rightarrow> byte list \<Rightarrow> pson" where
  "subscript_const [] name = empty_value"
| "subscript_const (item # rest) name =
     (if strcmp_eq (fst item) name then snd item else subscript_const rest name)"

text \<open>
  \<^verbatim>\<open>pson &operator[](const char *name) {
      for(iterator it=begin(); it.valid(); it.next()){
          if(strcmp(it.item().name(), name)==0){
              return it.item().value();
          }
      }
      pson_pair & pair = create_item();
      pair.set_name(name);
      return pair.value();
  };\<close>
  The reference it returns is the position of the pair in the list of the object, whose
  value the caller may then assign; the object is returned with it. \<open>find_name\<close> is the
  loop: the position of the first pair with the name.
\<close>

fun find_name :: "pson_pair list \<Rightarrow> byte list \<Rightarrow> nat option" where
  "find_name [] name = None"
| "find_name (item # rest) name =
     (if strcmp_eq (fst item) name then Some 0 else map_option Suc (find_name rest name))"

definition subscript :: "pson_pair list \<Rightarrow> byte list \<Rightarrow> nat \<times> pson_pair list" where
  "subscript object name =
     (case find_name object name of
        Some i \<Rightarrow> (i, object)
      | None \<Rightarrow> (length object, create_item object (set_name name, empty_value)))"

section \<open>The encoder\<close>

text \<open>
  The state of a \<^verbatim>\<open>pson_encoder\<close>: the member \<^verbatim>\<open>written_\<close> (read by
  \<^verbatim>\<open>bytes_written()\<close>) and the bytes a sink has received so far.
\<close>

record encoder =
  out :: "byte list"
  bytes_written :: "64 word"

type_synonym writer = "byte list \<Rightarrow> encoder \<Rightarrow> encoder"

text \<open>
  \<^verbatim>\<open>virtual void write(const void* buffer, size_t size){ written_+=size; }\<close>: the
  encoder of the class itself only counts. The argument is the \<^verbatim>\<open>size\<close> bytes at
  \<^verbatim>\<open>buffer\<close>; \<^verbatim>\<open>size_t\<close> is taken as 64 bits wide. (The name \<open>write\<close> is
  reserved in Isabelle.)
\<close>

definition write_base :: writer where
  "write_base buffer e = e\<lparr>bytes_written := bytes_written e + of_nat (length buffer)\<rparr>"

text \<open>
  Modelled from the spec: the byte sink, which is not part of pson.h (``the Encoder
  consumes an abstract write(bytes) sink''). It overrides \<^verbatim>\<open>write\<close>: the bytes are
  appended to the sink and counted as the base class counts them.
\<close>

definition write_mem :: writer where
  "write_mem buffer e =
     e\<lparr>out := out e @ buffer, bytes_written := bytes_written e + of_nat (length buffer)\<rparr>"

text \<open>\<^verbatim>\<open>pson_encoder() : written_(0)\<close>\<close>

definition pson_encoder :: encoder where
  "pson_encoder = \<lparr>out = [], bytes_written = 0\<rparr>"

text \<open>
  \<^verbatim>\<open>void pb_encode_varint(uint64_t value)
  {
      do
      {
          uint8_t byte = (uint8_t)(value & 0x7F);
          value >>= 7;
          if(value>0) byte |= 0x80;
          write(&byte, 1);
      }while(value>0);
  }\<close>
\<close>

function pb_encode_varint :: "writer \<Rightarrow> 64 word \<Rightarrow> encoder \<Rightarrow> encoder" where
  "pb_encode_varint wr v e =
     (let byte = (ucast (v AND 0x7F) :: byte);
          v' = drop_bit 7 v;
          byte' = (if 0 < v' then byte OR 0x80 else byte);
          e' = wr [byte'] e
      in if 0 < v' then pb_encode_varint wr v' e' else e')"
  by pat_completeness auto
termination
proof (relation "measure (\<lambda>(wr, v, e). unat v)")
  show "wf (measure (\<lambda>(wr :: writer, v :: 64 word, e :: encoder). unat v))" by simp
next
  fix wr :: writer and v :: "64 word" and e :: encoder and byte :: byte
    and v' :: "64 word" and byte' :: byte and e' :: encoder
  assume a: "v' = drop_bit 7 v" "0 < v'"
  have "unat v' = unat v div 128" using a by (simp add: drop_bit_eq_div unat_div)
  moreover have "unat v' \<noteq> 0" using a by (simp add: unat_eq_0 word_greater_zero_iff)
  ultimately have "unat v' < unat v" by simp
  then show "((wr, v', e'), (wr, v, e)) \<in> measure (\<lambda>(wr, v, e). unat v)" by simp
qed

text \<open>
  \<^verbatim>\<open>void pb_encode_tag(pb_wire_type wire_type, uint32_t field_number){
      uint64_t tag = ((uint64_t)field_number << 3) | wire_type;
      pb_encode_varint(tag);
  }\<close>
\<close>

definition pb_encode_tag :: "writer \<Rightarrow> 32 word \<Rightarrow> 32 word \<Rightarrow> encoder \<Rightarrow> encoder" where
  "pb_encode_tag wr wire_type field_number e =
     pb_encode_varint wr (push_bit 3 (ucast field_number :: 64 word) OR ucast wire_type) e"

text \<open>
  \<^verbatim>\<open>size_t pb_write_varint(void * buffer)\<close>: copies the bytes of the block to the sink
  up to and including the first one below 0x80, and returns their number. The list is the
  block from \<^verbatim>\<open>buffer + bytes_written\<close> on; reading past its end is undefined
  (\<open>None\<close>).
\<close>

fun pb_write_varint :: "writer \<Rightarrow> byte list \<Rightarrow> encoder \<Rightarrow> (nat \<times> encoder) option" where
  "pb_write_varint wr [] e = None"
| "pb_write_varint wr (byte # rest) e =
     (let e' = wr [byte] e
      in if 0x80 \<le> byte
         then (case pb_write_varint wr rest e' of
                 None \<Rightarrow> None
               | Some (n, e'') \<Rightarrow> Some (n + 1, e''))
         else Some (1, e'))"

text \<open>\<^verbatim>\<open>strlen\<close> on a block: undefined (\<open>None\<close>) when the block has no terminator.\<close>

definition strlen :: "byte list \<Rightarrow> nat option" where
  "strlen str = (if 0 \<in> set str then Some (length (takeWhile (\<lambda>c. c \<noteq> 0) str)) else None)"

text \<open>
  \<^verbatim>\<open>void pb_encode_string(const char* str){
      size_t string_size = strlen(str);
      pb_encode_varint(string_size);
      write(str, string_size);
  }\<close>
\<close>

definition pb_encode_string :: "writer \<Rightarrow> byte list \<Rightarrow> encoder \<Rightarrow> encoder option" where
  "pb_encode_string wr str e =
     (case strlen str of
        None \<Rightarrow> None
      | Some string_size \<Rightarrow>
          Some (wr (take string_size str) (pb_encode_varint wr (of_nat string_size) e)))"

text \<open>\<^verbatim>\<open>void pb_encode_string(const char* str, uint32_t field_number)\<close>\<close>

definition pb_encode_string_field :: "writer \<Rightarrow> byte list \<Rightarrow> 32 word \<Rightarrow> encoder \<Rightarrow> encoder option" where
  "pb_encode_string_field wr str field_number e =
     pb_encode_string wr str (pb_encode_tag wr length_delimited field_number e)"

text \<open>
  \<^verbatim>\<open>pb_encode_fixed32(uint32_t field, void* value)\<close> and
  \<^verbatim>\<open>pb_encode_fixed64(uint32_t field, void* value)\<close>: the tag, then 4 or 8 bytes of the
  block (undefined when the block is shorter).
\<close>

definition pb_encode_fixed32 :: "writer \<Rightarrow> 32 word \<Rightarrow> byte list \<Rightarrow> encoder \<Rightarrow> encoder option" where
  "pb_encode_fixed32 wr field v e =
     (if 4 \<le> length v then Some (wr (take 4 v) (pb_encode_tag wr fixed_32 field e)) else None)"

definition pb_encode_fixed64 :: "writer \<Rightarrow> 32 word \<Rightarrow> byte list \<Rightarrow> encoder \<Rightarrow> encoder option" where
  "pb_encode_fixed64 wr field v e =
     (if 8 \<le> length v then Some (wr (take 8 v) (pb_encode_tag wr fixed_64 field e)) else None)"

text \<open>
  The bytes case of \<^verbatim>\<open>encode(pson&)\<close>:
  \<^verbatim>\<open>pb_encode_tag(length_delimited, pson::bytes_field);
  write(((const char *)value.get_value()) + pb_write_varint(value.get_value()),
        value.pb_decode_varint((uint8_t *)value.get_value()));\<close>
\<close>

definition encode_bytes :: "writer \<Rightarrow> byte list \<Rightarrow> encoder \<Rightarrow> encoder option" where
  "encode_bytes wr buf e =
     (case pb_write_varint wr buf (pb_encode_tag wr length_delimited bytes_field e) of
        None \<Rightarrow> None
      | Some (n, e') \<Rightarrow>
          (case pson_pb_decode_varint buf of
             None \<Rightarrow> None
           | Some sz \<Rightarrow>
               if n + unat sz \<le> length buf then Some (wr (take (unat sz) (drop n buf)) e')
               else None))"

text \<open>
  \<^verbatim>\<open>encode(pson&)\<close>, \<^verbatim>\<open>encode(pson_object&)\<close>, \<^verbatim>\<open>encode(pson_array&)\<close> and
  \<^verbatim>\<open>encode(pson_pair&)\<close>, with the virtual \<^verbatim>\<open>write\<close> of the encoder as the parameter
  \<open>wr\<close>. The object and array cases are \<^verbatim>\<open>pb_encode_submessage\<close>:
  \<^verbatim>\<open>pb_encode_tag(length_delimited, field_number);
  pson_encoder sink;
  sink.encode(element);
  pb_encode_varint(sink.bytes_written());
  encode(element);\<close>
  where \<^verbatim>\<open>sink\<close> is an encoder of the base class, whose \<^verbatim>\<open>write\<close> only counts.
  A tag whose payload pointer does not hold what the branch casts it to is undefined
  behaviour (\<open>None\<close>).
\<close>

function (sequential) encode :: "writer \<Rightarrow> pson \<Rightarrow> encoder \<Rightarrow> encoder option"
  and encode_object :: "writer \<Rightarrow> pson_pair list \<Rightarrow> encoder \<Rightarrow> encoder option"
  and encode_array :: "writer \<Rightarrow> pson list \<Rightarrow> encoder \<Rightarrow> encoder option"
  and encode_pair :: "writer \<Rightarrow> pson_pair \<Rightarrow> encoder \<Rightarrow> encoder option"
where
  "encode wr (Pson t v) e =
     (if t = true_field \<or> t = false_field \<or> t = one_field \<or> t = zero_field then
        Some (pb_encode_tag wr varint t e)
      else if t = string_field then
        (case v of Buf str \<Rightarrow> pb_encode_string_field wr str string_field e | _ \<Rightarrow> None)
      else if t = bytes_field then
        (case v of Buf buf \<Rightarrow> encode_bytes wr buf e | _ \<Rightarrow> None)
      else if t = svarint_field \<or> t = varint_field then
        (case v of
           Buf buf \<Rightarrow> map_option snd (pb_write_varint wr buf (pb_encode_tag wr varint t e))
         | _ \<Rightarrow> None)
      else if t = float_field then
        (case v of Buf buf \<Rightarrow> pb_encode_fixed32 wr float_field buf e | _ \<Rightarrow> None)
      else if t = double_field then
        (case v of Buf buf \<Rightarrow> pb_encode_fixed64 wr double_field buf e | _ \<Rightarrow> None)
      else if t = object_field then
        (case v of
           Obj object \<Rightarrow>
             (case encode_object write_base object pson_encoder of
                None \<Rightarrow> None
              | Some sink \<Rightarrow>
                  encode_object wr object
                    (pb_encode_varint wr (bytes_written sink)
                       (pb_encode_tag wr length_delimited object_field e)))
         | _ \<Rightarrow> None)
      else if t = array_field then
        (case v of
           Arr array \<Rightarrow>
             (case encode_array write_base array pson_encoder of
                None \<Rightarrow> None
              | Some sink \<Rightarrow>
                  encode_array wr array
                    (pb_encode_varint wr (bytes_written sink)
                       (pb_encode_tag wr length_delimited array_field e)))
         | _ \<Rightarrow> None)
      else Some (pb_encode_tag wr varint null_field e))"
| "encode_object wr [] e = Some e"
| "encode_object wr (item # rest) e =
     (case encode_pair wr item e of None \<Rightarrow> None | Some e' \<Rightarrow> encode_object wr rest e')"
| "encode_array wr [] e = Some e"
| "encode_array wr (item # rest) e =
     (case encode wr item e of None \<Rightarrow> None | Some e' \<Rightarrow> encode_array wr rest e')"
| "encode_pair wr pair e =
     (case pb_encode_string wr (fst pair) e of
        None \<Rightarrow> None
      | Some e' \<Rightarrow> encode wr (snd pair) e')"
  by pat_completeness auto
termination
  by (relation "measure (\<lambda>x. case x of
        Inl (Inl (wr, v, e)) \<Rightarrow> size v
      | Inl (Inr (wr, object, e)) \<Rightarrow> size (Obj object)
      | Inr (Inl (wr, array, e)) \<Rightarrow> size (Arr array)
      | Inr (Inr (wr, pair, e)) \<Rightarrow> size (snd pair) + 1)") auto

section \<open>The decoder\<close>

text \<open>
  The state of a \<^verbatim>\<open>pson_decoder\<close>: the member \<^verbatim>\<open>read_\<close> (read by
  \<^verbatim>\<open>bytes_read()\<close>) and the bytes the source still holds.
\<close>

record decoder =
  input :: "byte list"
  bytes_read :: "64 word"

text \<open>
  Modelled from the spec: the byte source, which is not part of pson.h (``the Decoder
  consumes an abstract read(buffer, count) -> success source'', which on a truncated
  stream reports a failure ``rather than reading out of bounds''). It overrides
  \<^verbatim>\<open>virtual bool read(void* buffer, size_t size)\<close>: when the source still holds
  \<open>sz\<close> bytes they are delivered and counted as the base class counts them
  (\<^verbatim>\<open>read_+=size; return true;\<close>); otherwise nothing is delivered or counted and the
  result is \<^verbatim>\<open>false\<close> (\<open>None\<close>).
\<close>

definition read :: "decoder \<Rightarrow> nat \<Rightarrow> byte list option \<times> decoder" where
  "read d sz =
     (if sz \<le> length (input d)
      then (Some (take sz (input d)),
            d\<lparr>input := drop sz (input d), bytes_read := bytes_read d + of_nat sz\<rparr>)
      else (None, d))"

text \<open>\<^verbatim>\<open>read(&byte, 1)\<close>\<close>

definition read_byte :: "decoder \<Rightarrow> byte option \<times> decoder" where
  "read_byte d = (case read d 1 of (Some (byte # _), d') \<Rightarrow> (Some byte, d') | (_, d') \<Rightarrow> (None, d'))"

lemma read_byte_Some_length:
  "read_byte d = (Some byte, d') \<Longrightarrow> length (input d') < length (input d)"
  by (auto simp: read_byte_def read_def split: if_splits list.splits)

text \<open>
  A block from the pool is not initialised by the allocator. \<open>junk\<close> stands for what
  such a block holds, byte by byte, where the code leaves it unwritten.
\<close>

definition stale :: "(nat \<Rightarrow> byte) \<Rightarrow> nat \<Rightarrow> byte list" where
  "stale junk n = map junk [0..<n]"

text \<open>
  \<^verbatim>\<open>uint32_t pb_decode_varint32()
  {
      uint32_t varint = 0;
      uint8_t byte;
      uint8_t bit_pos = 0;
      do{
          if(!read(&byte, 1) || bit_pos>=32){
              return varint;
          }
          varint |= (uint32_t)(byte&0x7F) << bit_pos;
          bit_pos += 7;
      }while(byte>0x80);
      return varint;
  }\<close>
  \<^verbatim>\<open>bit_pos\<close> is a \<^verbatim>\<open>uint8_t\<close>: a natural number modulo 256.
\<close>

function pb_decode_varint32_loop :: "decoder \<Rightarrow> 32 word \<Rightarrow> nat \<Rightarrow> 32 word \<times> decoder" where
  "pb_decode_varint32_loop d v bit_pos =
     (case read_byte d of
        (None, d') \<Rightarrow> (v, d')
      | (Some byte, d') \<Rightarrow>
          if 32 \<le> bit_pos then (v, d')
          else let v' = v OR push_bit bit_pos (ucast (byte AND 0x7F));
                   bit_pos' = (bit_pos + 7) mod 256
               in if 0x80 < byte then pb_decode_varint32_loop d' v' bit_pos' else (v', d'))"
  by pat_completeness auto
termination
  by (relation "measure (\<lambda>(d, v, bit_pos). 39 - bit_pos)") auto

definition pb_decode_varint32 :: "decoder \<Rightarrow> 32 word \<times> decoder" where
  "pb_decode_varint32 d = pb_decode_varint32_loop d 0 0"

text \<open>
  \<^verbatim>\<open>uint64_t pb_decode_varint64()\<close> is the same loop with \<^verbatim>\<open>bit_pos>=64\<close> and a
  64-bit \<^verbatim>\<open>varint\<close>, but the same 32-bit operand in
  \<^verbatim>\<open>varint |= (uint32_t)(byte&0x7F) << bit_pos;\<close>
  Shifting a 32-bit value by 32 or more is undefined in C++: \<open>wide\<close> stands for
  whatever such a shift yields.
\<close>

definition shl_uint32 :: "(32 word \<Rightarrow> nat \<Rightarrow> 32 word) \<Rightarrow> 32 word \<Rightarrow> nat \<Rightarrow> 32 word" where
  "shl_uint32 wide w n = (if n < 32 then push_bit n w else wide w n)"

function pb_decode_varint64_loop ::
  "(32 word \<Rightarrow> nat \<Rightarrow> 32 word) \<Rightarrow> decoder \<Rightarrow> 64 word \<Rightarrow> nat \<Rightarrow> 64 word \<times> decoder" where
  "pb_decode_varint64_loop wide d v bit_pos =
     (case read_byte d of
        (None, d') \<Rightarrow> (v, d')
      | (Some byte, d') \<Rightarrow>
          if 64 \<le> bit_pos then (v, d')
          else let v' = v OR ucast (shl_uint32 wide (ucast (byte AND 0x7F)) bit_pos);
                   bit_pos' = (bit_pos + 7) mod 256
               in if 0x80 < byte then pb_decode_varint64_loop wide d' v' bit_pos' else (v', d'))"
  by pat_completeness auto
termination
  by (relation "measure (\<lambda>(wide, d, v, bit_pos). 71 - bit_pos)") auto

definition pb_decode_varint64 :: "(32 word \<Rightarrow> nat \<Rightarrow> 32 word) \<Rightarrow> decoder \<Rightarrow> 64 word \<times> decoder" where
  "pb_decode_varint64 wide d = pb_decode_varint64_loop wide d 0 0"

text \<open>
  \<^verbatim>\<open>bool pb_decode_tag(pb_wire_type& wire_type, uint32_t& field_number)
  {
      uint32_t temp = pb_decode_varint32();
      wire_type = (pb_wire_type)(temp & 0x07);
      field_number = temp >> 3;
      return true;
  }\<close>
\<close>

definition pb_decode_tag :: "decoder \<Rightarrow> 32 word \<times> 32 word \<times> decoder" where
  "pb_decode_tag d = (let (temp, d') = pb_decode_varint32 d in (temp AND 0x07, drop_bit 3 temp, d'))"

text \<open>
  \<^verbatim>\<open>bool pb_skip(size_t size){
      uint8_t byte;
      bool success = true;
      for(size_t i=0; i<size; i++){
          success &= read(&byte, 1);
      }
      return success;
  }\<close>
  The first argument of the loop is the number of rounds still to go.
\<close>

fun pb_skip_loop :: "nat \<Rightarrow> bool \<Rightarrow> decoder \<Rightarrow> bool \<times> decoder" where
  "pb_skip_loop 0 success d = (success, d)"
| "pb_skip_loop (Suc n) success d =
     (case read_byte d of (r, d') \<Rightarrow> pb_skip_loop n (success \<and> r \<noteq> None) d')"

definition pb_skip :: "nat \<Rightarrow> decoder \<Rightarrow> bool \<times> decoder" where
  "pb_skip sz d = pb_skip_loop sz True d"

text \<open>
  \<^verbatim>\<open>bool pb_read_string(char *str, size_t size){
      bool success = read(str, size);
      str[size]=0;
      return success;
  }\<close>
  on a fresh block of \<^verbatim>\<open>size+1\<close> bytes, which is returned: the bytes read (or, when
  the read fails, what the block held) and the terminator.
\<close>

definition pb_read_string :: "(nat \<Rightarrow> byte) \<Rightarrow> nat \<Rightarrow> decoder \<Rightarrow> bool \<times> byte list \<times> decoder" where
  "pb_read_string junk sz d =
     (case read d sz of
        (Some bs, d') \<Rightarrow> (True, bs @ [0], d')
      | (None, d') \<Rightarrow> (False, stale junk sz @ [0], d'))"

text \<open>
  What the model gives where the source has no defined result: the recursion ran out of
  fuel (the source is still running), or the source writes outside a block.
\<close>

datatype fault = OutOfFuel | Undefined

text \<open>
  \<^verbatim>\<open>bool pb_read_varint(pson& value)
  {
      char temp[10];
      uint8_t byte=0;
      uint8_t bytes_read=0;
      do{
          if(!read(&byte, 1)) return false;
          temp[bytes_read] = byte;
          bytes_read++;
      }while(byte>=0x80);
      memcpy(value.allocate(bytes_read), temp, bytes_read);
      return true;
  }\<close>
  The list is \<^verbatim>\<open>temp[0..bytes_read)\<close>. The result is the new block of the value, or
  \<open>None\<close> for \<^verbatim>\<open>false\<close>; an eleventh byte is stored outside \<^verbatim>\<open>temp\<close>.
\<close>

function pb_read_varint_loop :: "decoder \<Rightarrow> byte list \<Rightarrow> fault + (byte list option \<times> decoder)" where
  "pb_read_varint_loop d temp =
     (case read_byte d of
        (None, d') \<Rightarrow> Inr (None, d')
      | (Some byte, d') \<Rightarrow>
          if 10 \<le> length temp then Inl Undefined
          else let temp' = temp @ [byte]
               in if 0x80 \<le> byte then pb_read_varint_loop d' temp' else Inr (Some temp', d'))"
  by pat_completeness auto
termination
  by (relation "measure (\<lambda>(d, temp). length (input d))")
     (auto dest: read_byte_Some_length [OF sym])

definition pb_read_varint :: "decoder \<Rightarrow> fault + (byte list option \<times> decoder)" where
  "pb_read_varint d = pb_read_varint_loop d []"

text \<open>
  \<^verbatim>\<open>decode(pson&)\<close>, \<^verbatim>\<open>decode(pson_object&, size_t)\<close>,
  \<^verbatim>\<open>decode(pson_array&, size_t)\<close> and \<^verbatim>\<open>decode(pson_pair&)\<close>. The loops
  \<^verbatim>\<open>size_t start_read = bytes_read();
  while(size-(bytes_read()-start_read)>0){ decode(object.create_item()); }\<close>
  compute in \<^verbatim>\<open>size_t\<close> and need not end, so every call takes fuel. In the string and
  name cases the block has \<^verbatim>\<open>size+1\<close> bytes, computed in \<^verbatim>\<open>uint32_t\<close>: when that wraps
  to 0, \<^verbatim>\<open>str[size]=0\<close> is outside the block.
\<close>

function (sequential) decode :: "nat \<Rightarrow> (nat \<Rightarrow> byte) \<Rightarrow> pson \<Rightarrow> decoder \<Rightarrow> fault + (pson \<times> decoder)"
  and decode_object ::
    "nat \<Rightarrow> (nat \<Rightarrow> byte) \<Rightarrow> pson_pair list \<Rightarrow> 64 word \<Rightarrow> 64 word \<Rightarrow> decoder
      \<Rightarrow> fault + (pson_pair list \<times> decoder)"
  and decode_array ::
    "nat \<Rightarrow> (nat \<Rightarrow> byte) \<Rightarrow> pson list \<Rightarrow> 64 word \<Rightarrow> 64 word \<Rightarrow> decoder
      \<Rightarrow> fault + (pson list \<times> decoder)"
  and decode_pair :: "nat \<Rightarrow> (nat \<Rightarrow> byte) \<Rightarrow> decoder \<Rightarrow> fault + (pson_pair \<times> decoder)"
where
  "decode 0 junk val d = Inl OutOfFuel"
| "decode (Suc fuel) junk val d =
     (let (wire_type, field_number, d1) = pb_decode_tag d in
      if wire_type = length_delimited then
        (let (sz, d2) = pb_decode_varint32 d1 in
         if field_number = string_field then
           (if sz + 1 = 0 then Inl Undefined
            else let (success, str, d3) = pb_read_string junk (unat sz) d2
                 in Inr (Pson field_number (Buf str), d3))
         else if field_number = bytes_field then
           (let (r, d3) = read d2 (unat sz);
                bytes = (case r of Some bs \<Rightarrow> bs | None \<Rightarrow> stale junk (unat sz))
            in Inr (Pson field_number (Buf (pson_pb_encode_varint (ucast sz) @ bytes)), d3))
         else if field_number = object_field then
           (case decode_object fuel junk [] (ucast sz) (bytes_read d2) d2 of
              Inl f \<Rightarrow> Inl f
            | Inr (object, d3) \<Rightarrow> Inr (Pson field_number (Obj object), d3))
         else if field_number = array_field then
           (case decode_array fuel junk [] (ucast sz) (bytes_read d2) d2 of
              Inl f \<Rightarrow> Inl f
            | Inr (array, d3) \<Rightarrow> Inr (Pson field_number (Arr array), d3))
         else
           (let (success, d3) = pb_skip (unat sz) d2
            in Inr (Pson field_number (get_value val), d3)))
      else if field_number = svarint_field \<or> field_number = varint_field then
        (case pb_read_varint d1 of
           Inl f \<Rightarrow> Inl f
         | Inr (None, d2) \<Rightarrow> Inr (Pson field_number (get_value val), d2)
         | Inr (Some temp, d2) \<Rightarrow> Inr (Pson field_number (Buf temp), d2))
      else if field_number = float_field then
        (let (r, d2) = read d1 4
         in Inr (Pson field_number (Buf (case r of Some bs \<Rightarrow> bs | None \<Rightarrow> stale junk 4)), d2))
      else if field_number = double_field then
        (let (r, d2) = read d1 8
         in Inr (Pson field_number (Buf (case r of Some bs \<Rightarrow> bs | None \<Rightarrow> stale junk 8)), d2))
      else Inr (Pson field_number (get_value val), d1))"
| "decode_object 0 junk object sz start_read d = Inl OutOfFuel"
| "decode_object (Suc fuel) junk object sz start_read d =
     (if 0 < sz - (bytes_read d - start_read) then
        (case decode_pair fuel junk d of
           Inl f \<Rightarrow> Inl f
         | Inr (pair, d') \<Rightarrow> decode_object fuel junk (create_item object pair) sz start_read d')
      else Inr (object, d))"
| "decode_array 0 junk array sz start_read d = Inl OutOfFuel"
| "decode_array (Suc fuel) junk array sz start_read d =
     (if 0 < sz - (bytes_read d - start_read) then
        (case decode fuel junk empty_value d of
           Inl f \<Rightarrow> Inl f
         | Inr (item, d') \<Rightarrow> decode_array fuel junk (create_item array item) sz start_read d')
      else Inr (array, d))"
| "decode_pair 0 junk d = Inl OutOfFuel"
| "decode_pair (Suc fuel) junk d =
     (let (name_size, d1) = pb_decode_varint32 d in
      if name_size + 1 = 0 then Inl Undefined
      else let (success, name, d2) = pb_read_string junk (unat name_size) d1
           in (case decode fuel junk empty_value d2 of
                 Inl f \<Rightarrow> Inl f
               | Inr (v, d3) \<Rightarrow> Inr ((name, v), d3)))"

  by pat_completeness auto
termination
  by (relation "measure (\<lambda>x. case x of
        Inl (Inl (fuel, junk, val, d)) \<Rightarrow> fuel
      | Inl (Inr (fuel, junk, object, sz, start_read, d)) \<Rightarrow> fuel
      | Inr (Inl (fuel, junk, array, sz, start_read, d)) \<Rightarrow> fuel
      | Inr (Inr (fuel, junk, d)) \<Rightarrow> fuel)") auto

declare get_varint_size_loop.simps [simp del]
declare pson_pb_encode_varint.simps [simp del]
declare pb_encode_varint.simps [simp del]
declare pb_decode_varint32_loop.simps [simp del]
declare pb_decode_varint64_loop.simps [simp del]
declare pb_read_varint_loop.simps [simp del]
declare encode.simps [simp del]
declare encode_object.simps [simp del]
declare encode_array.simps [simp del]
declare encode_pair.simps [simp del]
declare decode.simps [simp del]
declare decode_object.simps [simp del]
declare decode_array.simps [simp del]
declare decode_pair.simps [simp del]

section \<open>Reading single bytes\<close>

lemma read_byte_None: "read_byte d = (None, d') \<Longrightarrow> d' = d"
  by (auto simp: read_byte_def read_def split: if_splits list.splits)

lemma read_byte_Some:
  "read_byte d = (Some byte, d') \<Longrightarrow>
     input d = byte # input d' \<and> bytes_read d' = bytes_read d + 1"
  by (cases "input d") (auto simp: read_byte_def read_def split: if_splits list.splits)

lemma read_byte_Cons [simp]:
  "read_byte \<lparr>input = byte # rest, bytes_read = n\<rparr> = (Some byte, \<lparr>input = rest, bytes_read = n + 1\<rparr>)"
  by (simp add: read_byte_def read_def)

lemma read_byte_Nil [simp]:
  "read_byte \<lparr>input = [], bytes_read = n\<rparr> = (None, \<lparr>input = [], bytes_read = n\<rparr>)"
  by (simp add: read_byte_def read_def)

lemma pb_decode_varint32_loop_consumes:
  "pb_decode_varint32_loop d v bit_pos = (r, d') \<Longrightarrow>
     \<exists>taken. input d = taken @ input d' \<and> length taken \<le> 1 + (39 - bit_pos) div 7
        \<and> bytes_read d' = bytes_read d + of_nat (length taken)"
proof (induction d v bit_pos arbitrary: r d' rule: pb_decode_varint32_loop.induct)
  case (1 d v bit_pos)
  obtain rb d1 where rb: "read_byte d = (rb, d1)" by (cases "read_byte d")
  show ?case
  proof (cases rb)
    case None
    with rb "1.prems" have "d' = d"
      by (simp add: pb_decode_varint32_loop.simps [of d] read_byte_None)
    then show ?thesis by simp
  next
    case (Some byte)
    note rs = read_byte_Some [OF rb [unfolded Some]]
    show ?thesis
    proof (cases "32 \<le> bit_pos \<or> \<not> 0x80 < byte")
      case True
      with rb Some "1.prems" have "d' = d1"
        by (auto simp: pb_decode_varint32_loop.simps [of d] Let_def split: if_splits)
      with rs have "input d = [byte] @ input d'" "bytes_read d' = bytes_read d + of_nat (length [byte])"
        by simp_all
      then show ?thesis by (intro exI [of _ "[byte]"]) simp
    next
      case False
      then have bp: "bit_pos < 32" and hi: "0x80 < byte" by simp_all
      have m: "(bit_pos + 7) mod 256 = bit_pos + 7" using bp by simp
      let ?v' = "v OR push_bit bit_pos (ucast (byte AND 0x7F))"
      from rb Some "1.prems" bp hi m
      have rec: "pb_decode_varint32_loop d1 ?v' (bit_pos + 7) = (r, d')"
        by (simp add: pb_decode_varint32_loop.simps [of d] Let_def)
      from "1.IH" [OF rb [symmetric] Some _ refl refl hi, of r d'] bp rec m
      obtain taken where t: "input d1 = taken @ input d'"
        "length taken \<le> 1 + (39 - (bit_pos + 7)) div 7"
        "bytes_read d' = bytes_read d1 + of_nat (length taken)"
        by auto
      have "1 + (39 - (bit_pos + 7)) div 7 + 1 \<le> 1 + (39 - bit_pos) div 7"
        using bp by presburger
      with t rs show ?thesis
        by (intro exI [of _ "byte # taken"]) simp
    qed
  qed
qed

section \<open>The streaming varint readers read a bounded number of bytes\<close>

lemma pb_decode_varint64_loop_consumes:
  "pb_decode_varint64_loop wide d v bit_pos = (r, d') \<Longrightarrow>
     \<exists>taken. input d = taken @ input d' \<and> length taken \<le> 1 + (70 - bit_pos) div 7
        \<and> bytes_read d' = bytes_read d + of_nat (length taken)"
proof (induction wide d v bit_pos arbitrary: r d' rule: pb_decode_varint64_loop.induct)
  case (1 wide d v bit_pos)
  obtain rb d1 where rb: "read_byte d = (rb, d1)" by (cases "read_byte d")
  show ?case
  proof (cases rb)
    case None
    with rb "1.prems" have "d' = d"
      by (simp add: pb_decode_varint64_loop.simps [of wide d] read_byte_None)
    then show ?thesis by simp
  next
    case (Some byte)
    note rs = read_byte_Some [OF rb [unfolded Some]]
    show ?thesis
    proof (cases "64 \<le> bit_pos \<or> \<not> 0x80 < byte")
      case True
      with rb Some "1.prems" have "d' = d1"
        by (auto simp: pb_decode_varint64_loop.simps [of wide d] Let_def split: if_splits)
      with rs have "input d = [byte] @ input d'" "bytes_read d' = bytes_read d + of_nat (length [byte])"
        by simp_all
      then show ?thesis by (intro exI [of _ "[byte]"]) simp
    next
      case False
      then have bp: "bit_pos < 64" and hi: "0x80 < byte" by simp_all
      have m: "(bit_pos + 7) mod 256 = bit_pos + 7" using bp by simp
      let ?v' = "v OR ucast (shl_uint32 wide (ucast (byte AND 0x7F)) bit_pos)"
      from rb Some "1.prems" bp hi m
      have rec: "pb_decode_varint64_loop wide d1 ?v' (bit_pos + 7) = (r, d')"
        by (simp add: pb_decode_varint64_loop.simps [of wide d] Let_def)
      from "1.IH" [OF rb [symmetric] Some _ refl refl hi, of r d'] bp rec m
      obtain taken where t: "input d1 = taken @ input d'"
        "length taken \<le> 1 + (70 - (bit_pos + 7)) div 7"
        "bytes_read d' = bytes_read d1 + of_nat (length taken)"
        by auto
      have "1 + (70 - (bit_pos + 7)) div 7 + 1 \<le> 1 + (70 - bit_pos) div 7"
        using bp by presburger
      with t rs show ?thesis
        by (intro exI [of _ "byte # taken"]) simp
    qed
  qed
qed

lemma pb_decode_varint32_continuation_bytes:
  "snd (pb_decode_varint32 \<lparr>input = 0xFF # 0xFF # 0xFF # 0xFF # 0xFF # 0xFF # rest, bytes_read = n\<rparr>)
     = \<lparr>input = rest, bytes_read = n + 6\<rparr>"
  by (simp add: pb_decode_varint32_def pb_decode_varint32_loop.simps)

lemma pb_decode_varint64_continuation_bytes:
  "snd (pb_decode_varint64 wide \<lparr>input = 0xFF # 0xFF # 0xFF # 0xFF # 0xFF # 0xFF # 0xFF # 0xFF # 0xFF # 0xFF # 0xFF # rest, bytes_read = n\<rparr>)
     = \<lparr>input = rest, bytes_read = n + 11\<rparr>"
  by (simp add: pb_decode_varint64_def pb_decode_varint64_loop.simps)

text \<open>
  Claim C10. Whatever the source holds, one call of \<^verbatim>\<open>pb_decode_varint32\<close> takes at
  most 6 bytes from it and one call of \<^verbatim>\<open>pb_decode_varint64\<close> at most 11, and
  \<^verbatim>\<open>bytes_read()\<close> grows by the number of bytes taken. Both readers are total
  functions: they stop as soon as a read fails or the bit position has reached 32
  (respectively 64), whatever an over-wide shift yields. Six (eleven) continuation
  bytes reach the bound, by the two lemmas above.
\<close>

theorem varint_readers_bounded:
  "(\<exists>taken. input d = taken @ input (snd (pb_decode_varint32 d)) \<and> length taken \<le> 6
      \<and> bytes_read (snd (pb_decode_varint32 d)) = bytes_read d + of_nat (length taken))
   \<and> (\<exists>taken. input d = taken @ input (snd (pb_decode_varint64 wide d)) \<and> length taken \<le> 11
      \<and> bytes_read (snd (pb_decode_varint64 wide d)) = bytes_read d + of_nat (length taken))"
proof
  obtain r d' where a: "pb_decode_varint32_loop d 0 0 = (r, d')"
    by (cases "pb_decode_varint32_loop d 0 0")
  from pb_decode_varint32_loop_consumes [OF a] a
  show "\<exists>taken. input d = taken @ input (snd (pb_decode_varint32 d)) \<and> length taken \<le> 6
      \<and> bytes_read (snd (pb_decode_varint32 d)) = bytes_read d + of_nat (length taken)"
    by (simp add: pb_decode_varint32_def)
next
  obtain r d' where a: "pb_decode_varint64_loop wide d 0 0 = (r, d')"
    by (cases "pb_decode_varint64_loop wide d 0 0")
  from pb_decode_varint64_loop_consumes [OF a] a
  show "\<exists>taken. input d = taken @ input (snd (pb_decode_varint64 wide d)) \<and> length taken \<le> 11
      \<and> bytes_read (snd (pb_decode_varint64 wide d)) = bytes_read d + of_nat (length taken)"
    by (simp add: pb_decode_varint64_def)
qed

section \<open>The encoders write the varint of the spec, in the least number of bytes\<close>

lemma unat_drop_bit_7: "unat (drop_bit 7 (v :: 64 word)) = unat v div 128"
  by (simp add: drop_bit_eq_div unat_div)

lemma drop_bit_7_eq_0: "(drop_bit 7 (v :: 64 word) = 0) = (unat v < 128)"
proof -
  have "(drop_bit 7 v = 0) = (unat (drop_bit 7 v) = 0)" by (simp add: unat_eq_0)
  also have "\<dots> = (unat v div 128 = 0)" by (simp add: unat_drop_bit_7)
  also have "\<dots> = (unat v < 128)" by (simp add: div_eq_0_iff)
  finally show ?thesis .
qed

lemma low7_byte: "(ucast ((v :: 64 word) AND 0x7F) :: byte) = of_nat (unat v mod 128)"
proof -
  have "v AND 0x7F = take_bit 7 v"
    by (simp add: take_bit_eq_mask mask_eq_exp_minus_1)
  moreover have "unat (take_bit 7 v) = unat v mod 128"
    by (simp add: unsigned_take_bit_eq take_bit_eq_mod unat_mod)
  moreover have "(ucast (take_bit 7 v) :: byte) = of_nat (unat (take_bit 7 v))"
    by simp
  ultimately show ?thesis by simp
qed

lemma pson_pb_encode_varint_spec: "pson_pb_encode_varint v = varint_spec (unat v)"
proof (induction v rule: pson_pb_encode_varint.induct)
  case (1 v)
  show ?case
  proof (cases "unat v < 128")
    case True
    then show ?thesis
      by (simp add: pson_pb_encode_varint.simps [of v] varint_spec.simps [of "unat v"]
          drop_bit_7_eq_0 low7_byte)
  next
    case False
    then have nz: "drop_bit 7 v \<noteq> 0" by (simp add: drop_bit_7_eq_0)
    from "1.IH" [OF refl refl refl nz]
    have "pson_pb_encode_varint (drop_bit 7 v) = varint_spec (unat v div 128)"
      by (simp add: unat_drop_bit_7)
    with False nz show ?thesis
      by (simp add: pson_pb_encode_varint.simps [of v] varint_spec.simps [of "unat v"]
          low7_byte)
  qed
qed

lemma get_varint_size_loop_spec:
  "get_varint_size_loop v sz = sz + length (varint_spec (unat v)) - 1"
proof (induction v sz rule: get_varint_size_loop.induct)
  case (1 v sz)
  show ?case
  proof (cases "unat v < 128")
    case True
    then show ?thesis
      by (simp add: get_varint_size_loop.simps [of v] varint_spec.simps [of "unat v"]
          drop_bit_7_eq_0)
  next
    case False
    then have nz: "drop_bit 7 v \<noteq> 0" by (simp add: drop_bit_7_eq_0)
    from "1.IH" [OF refl nz] False nz show ?thesis
      by (simp add: get_varint_size_loop.simps [of v] varint_spec.simps [of "unat v"]
          unat_drop_bit_7)
  qed
qed

lemma get_varint_size_spec: "get_varint_size v = length (varint_spec (unat v))"
  by (simp add: get_varint_size_def get_varint_size_loop_spec)

lemma length_pson_pb_encode_varint: "length (pson_pb_encode_varint v) = get_varint_size v"
  by (simp add: get_varint_size_spec pson_pb_encode_varint_spec)


lemma varint_spec_upper: "n < 128 ^ length (varint_spec n)"
proof (induction n rule: varint_spec.induct)
  case (1 n)
  show ?case
  proof (cases "n < 128")
    case True
    then show ?thesis by (simp add: varint_spec.simps [of n])
  next
    case False
    from "1.IH" [OF False] have "n div 128 < 128 ^ length (varint_spec (n div 128))" .
    then have "n < 128 * 128 ^ length (varint_spec (n div 128))"
      by (simp add: div_less_iff_less_mult mult.commute)
    with False show ?thesis by (simp add: varint_spec.simps [of n])
  qed
qed

lemma varint_spec_lower: "128 ^ (length (varint_spec n) - 1) \<le> max n 1"
proof (induction n rule: varint_spec.induct)
  case (1 n)
  show ?case
  proof (cases "n < 128")
    case True
    then show ?thesis by (simp add: varint_spec.simps [of n])
  next
    case False
    then have pos: "1 \<le> n div 128" by (simp add: Suc_leI div_greater_zero_iff)
    from "1.IH" [OF False] pos have "128 ^ (length (varint_spec (n div 128)) - 1) \<le> n div 128"
      by (simp add: max_def)
    then have "128 * 128 ^ (length (varint_spec (n div 128)) - 1) \<le> n"
      by (simp add: less_eq_div_iff_mult_less_eq mult.commute)
    moreover have "0 < length (varint_spec (n div 128))"
      by (simp add: varint_spec.simps [of "n div 128"])
    ultimately have "128 ^ length (varint_spec (n div 128)) \<le> n"
      by (metis Suc_pred' power_Suc)
    with False show ?thesis by (simp add: varint_spec.simps [of n] max_def)
  qed
qed

section \<open>Assigning integers and booleans\<close>

text \<open>
  Claim C9. The values that assigning the integers 0 and 1 (at any integer type, signed
  or unsigned) and the booleans gives, and every value with one of the tags null, true,
  false, zero and one (whatever its payload pointer holds), are encoded by a single
  \<^verbatim>\<open>write\<close> of one byte, the tag varint \<open>type * 8 + 0\<close>; the integer 0 is the one byte
  0x38 on the wire.
\<close>

theorem zero_payload_compaction:
  "encode wr (assign_signed ov 0 p) e = Some (wr [0x38] e)
   \<and> encode wr (assign_signed ov 1 p) e = Some (wr [0x40] e)
   \<and> encode wr (assign_unsigned 0 p) e = Some (wr [0x38] e)
   \<and> encode wr (assign_unsigned 1 p) e = Some (wr [0x40] e)
   \<and> encode wr (assign_bool True p) e = Some (wr [0x28] e)
   \<and> encode wr (assign_bool False p) e = Some (wr [0x30] e)
   \<and> encode wr (Pson null_field v) e = Some (wr [0x00] e)
   \<and> encode wr (Pson true_field v) e = Some (wr [0x28] e)
   \<and> encode wr (Pson false_field v) e = Some (wr [0x30] e)
   \<and> encode wr (Pson zero_field v) e = Some (wr [0x38] e)
   \<and> encode wr (Pson one_field v) e = Some (wr [0x40] e)
   \<and> encode write_mem (assign_signed ov 0 empty_value) pson_encoder
       = Some \<lparr>out = [0x38], bytes_written = 1\<rparr>"
  by (simp add: encode.simps assign_signed_def assign_unsigned_def assign_bool_def
      pb_encode_tag_def pb_encode_varint.simps write_mem_def pson_encoder_def
      empty_value_def)

section \<open>Lengths with a byte 0x80 in their varint\<close>

text \<open>
  Claim C2, at the magnitude 128. The encoder's varint writer emits the two bytes
  0x80 0x01, the least number of bytes and the number \<^verbatim>\<open>get_varint_size\<close> gives. Both
  streaming readers of the decoder end their loop on \<^verbatim>\<open>while(byte>0x80)\<close>, so the
  byte 0x80 ends the number: they return 0 and leave the byte 0x01 in the source.
  \<^verbatim>\<open>pb_decode_varint\<close> of class pson, whose loop ends on \<^verbatim>\<open>while(byte>=0x80)\<close>,
  reads 128 from the same bytes.
\<close>

theorem varint_128_not_read_back:
  "out (pb_encode_varint write_mem 128 pson_encoder) = [0x80, 0x01]
   \<and> get_varint_size 128 = 2
   \<and> pb_decode_varint64 wide \<lparr>input = [0x80, 0x01], bytes_read = 0\<rparr>
       = (0, \<lparr>input = [0x01], bytes_read = 1\<rparr>)
   \<and> pb_decode_varint32 \<lparr>input = [0x80, 0x01], bytes_read = 0\<rparr>
       = (0, \<lparr>input = [0x01], bytes_read = 1\<rparr>)
   \<and> pson_pb_decode_varint [0x80, 0x01] = Some 128"
  by (simp add: pb_encode_varint.simps write_mem_def pson_encoder_def
      get_varint_size_def get_varint_size_loop.simps
      pb_decode_varint64_def pb_decode_varint64_loop.simps shl_uint32_def
      pb_decode_varint32_def pb_decode_varint32_loop.simps
      pson_pb_decode_varint_def word_le_nat_alt)

lemma strlen_terminated:
  "0 \<notin> set str \<Longrightarrow> strlen (str @ 0 # rest) = Some (length str)"
  by (induction str) (auto simp: strlen_def)

text \<open>
  Claim C1, at the string of 128 characters \<^verbatim>\<open>a\<close>. It is encoded as the tag 0x4A, the
  length 0x80 0x01 and the 128 characters. Decoding these bytes reads the length as 0:
  the value is the empty string, and 129 bytes stay in the source.
\<close>

theorem string_of_128_chars_not_round_trip:
  "encode write_mem (assign_string (replicate 128 0x61) empty_value) pson_encoder
     = Some \<lparr>out = [0x4A, 0x80, 0x01] @ replicate 128 0x61, bytes_written = 131\<rparr>
   \<and> decode (Suc fuel) junk empty_value
         \<lparr>input = [0x4A, 0x80, 0x01] @ replicate 128 0x61, bytes_read = 0\<rparr>
     = Inr (Pson string_field (Buf [0]),
            \<lparr>input = 0x01 # replicate 128 0x61, bytes_read = 2\<rparr>)"
proof
  have t: "takeWhile (\<lambda>c. c \<noteq> 0) (replicate 128 (0x61 :: byte)) = replicate 128 0x61"
    by (simp add: takeWhile_eq_all_conv [THEN iffD2])
  have s: "strlen (replicate 128 (0x61 :: byte) @ [0]) = Some 128"
    using strlen_terminated [of "replicate 128 (0x61 :: byte)" "[]"] by simp
  show "encode write_mem (assign_string (replicate 128 0x61) empty_value) pson_encoder
     = Some \<lparr>out = [0x4A, 0x80, 0x01] @ replicate 128 0x61, bytes_written = 131\<rparr>"
    by (simp add: encode.simps assign_string_def t s pb_encode_string_field_def
        pb_encode_string_def pb_encode_tag_def pb_encode_varint.simps write_mem_def
        pson_encoder_def)
next
  show "decode (Suc fuel) junk empty_value
         \<lparr>input = [0x4A, 0x80, 0x01] @ replicate 128 0x61, bytes_read = 0\<rparr>
     = Inr (Pson string_field (Buf [0]),
            \<lparr>input = 0x01 # replicate 128 0x61, bytes_read = 2\<rparr>)"
    by (simp add: decode.simps pb_decode_tag_def pb_decode_varint32_def
        pb_decode_varint32_loop.simps pb_read_string_def read_def)
qed

text \<open>
  Claim C7, at a field with the unknown type tag 15 under the length-delimited wire kind
  (tag byte 0x7A) that declares 128 payload bytes, followed by the field of a zero. The
  declared length is read as 0 and nothing is skipped: two bytes are consumed, and the
  next call of \<^verbatim>\<open>decode\<close> takes the second length byte 0x01 for a tag.
\<close>

theorem unknown_field_of_128_bytes_not_skipped:
  "decode (Suc fuel) junk val
       \<lparr>input = [0x7A, 0x80, 0x01] @ replicate 128 0xAA @ [0x38], bytes_read = 0\<rparr>
     = Inr (Pson 15 (get_value val),
            \<lparr>input = 0x01 # replicate 128 0xAA @ [0x38], bytes_read = 2\<rparr>)
   \<and> decode (Suc fuel) junk empty_value
       \<lparr>input = 0x01 # replicate 128 0xAA @ [0x38], bytes_read = 2\<rparr>
     = Inr (Pson null_field Null, \<lparr>input = replicate 128 0xAA @ [0x38], bytes_read = 3\<rparr>)"
  by (simp add: decode.simps pb_decode_tag_def pb_decode_varint32_def
      pb_decode_varint32_loop.simps pb_skip_def empty_value_def)

section \<open>A stream that ends after the tag byte\<close>

lemma pb_decode_varint32_loop_exhausted:
  "pb_decode_varint32_loop \<lparr>input = [], bytes_read = n\<rparr> v bit_pos
     = (v, \<lparr>input = [], bytes_read = n\<rparr>)"
  by (simp add: pb_decode_varint32_loop.simps)

lemma pb_decode_varint32_last_byte:
  "pb_decode_varint32 \<lparr>input = [b], bytes_read = n\<rparr>
     = (ucast (b AND 0x7F), \<lparr>input = [], bytes_read = n + 1\<rparr>)"
  by (simp add: pb_decode_varint32_def pb_decode_varint32_loop.simps [of "\<lparr>input = [b], bytes_read = n\<rparr>"]
      pb_decode_varint32_loop_exhausted Let_def)

lemma pb_decode_varint32_exhausted:
  "pb_decode_varint32 \<lparr>input = [], bytes_read = n\<rparr> = (0, \<lparr>input = [], bytes_read = n\<rparr>)"
  by (simp add: pb_decode_varint32_def pb_decode_varint32_loop_exhausted)

lemma pb_read_varint_exhausted:
  "pb_read_varint \<lparr>input = [], bytes_read = n\<rparr> = Inr (None, \<lparr>input = [], bytes_read = n\<rparr>)"
  by (simp add: pb_read_varint_def pb_read_varint_loop.simps)

lemma read_exhausted:
  "read \<lparr>input = [], bytes_read = n\<rparr> sz
     = (if sz = 0 then (Some [], \<lparr>input = [], bytes_read = n\<rparr>)
        else (None, \<lparr>input = [], bytes_read = n\<rparr>))"
  by (simp add: read_def)

text \<open>
  The call of \<^verbatim>\<open>decode(pson&)\<close> that finds one last byte in the source. It returns
  (two units of fuel are enough), exactly that byte is consumed and counted, whatever the
  byte is, and nothing is read beyond the source. The value gets the type of the tag. Its
  payload is: the empty string, the empty byte buffer, the empty object or the empty array
  under the length-delimited wire kind (the failed read of the length gives 0); a block of
  4 or 8 unwritten bytes for float32 and float64; and what the value held before in every
  other case, the varint types among them.
\<close>

lemma decode_after_lone_tag_byte:
  "decode (Suc (Suc fuel)) junk val \<lparr>input = [b], bytes_read = n\<rparr> =
     (let temp = (ucast (b AND 0x7F) :: 32 word);
          wire_type = temp AND 0x07;
          field_number = drop_bit 3 temp;
          payload =
            (if wire_type = length_delimited then
               (if field_number = string_field then Buf [0]
                else if field_number = bytes_field then Buf [0]
                else if field_number = object_field then Obj []
                else if field_number = array_field then Arr []
                else get_value val)
             else if field_number = float_field then Buf (stale junk 4)
             else if field_number = double_field then Buf (stale junk 8)
             else get_value val)
      in Inr (Pson field_number payload, \<lparr>input = [], bytes_read = n + 1\<rparr>))"
  by (simp add: decode.simps decode_object.simps decode_array.simps Let_def
      pb_decode_tag_def pb_decode_varint32_last_byte
      pb_decode_varint32_exhausted pb_read_varint_exhausted read_exhausted
      pb_read_string_def pb_skip_def stale_def pson_pb_encode_varint.simps)

text \<open>
  With the source exhausted, every read fails and \<^verbatim>\<open>bytes_read()\<close> no longer grows:
  \<^verbatim>\<open>decode(pson&)\<close> and \<^verbatim>\<open>decode(pson_pair&)\<close> return an empty item without consuming
  anything, and the loop of an object or array runs for ever when its declared length has
  not been reached.
\<close>

lemma decode_exhausted:
  "decode (Suc fuel) junk val \<lparr>input = [], bytes_read = r\<rparr>
     = Inr (Pson null_field (get_value val), \<lparr>input = [], bytes_read = r\<rparr>)"
  by (simp add: decode.simps pb_decode_tag_def pb_decode_varint32_exhausted)

lemma decode_pair_exhausted:
  "decode_pair (Suc (Suc fuel)) junk \<lparr>input = [], bytes_read = r\<rparr>
     = Inr (([0], Pson null_field Null), \<lparr>input = [], bytes_read = r\<rparr>)"
  by (simp add: decode_pair.simps pb_decode_varint32_exhausted pb_read_string_def
      read_exhausted decode_exhausted empty_value_def)

lemma decode_array_exhausted:
  "decode_array fuel junk array sz start_read \<lparr>input = [], bytes_read = r\<rparr>
     = (if 0 < sz - (r - start_read) \<or> fuel = 0 then Inl OutOfFuel
        else Inr (array, \<lparr>input = [], bytes_read = r\<rparr>))"
proof (induction fuel arbitrary: array)
  case 0
  show ?case by (simp add: decode_array.simps)
next
  case (Suc fuel)
  show ?case
  proof (cases fuel)
    case 0
    then show ?thesis by (simp add: decode_array.simps decode.simps)
  next
    case (Suc f)
    let ?d = "\<lparr>input = [] :: byte list, bytes_read = r\<rparr>"
    have step: "decode_array (Suc (Suc f)) junk array sz start_read ?d
        = (if 0 < sz - (r - start_read)
           then decode_array (Suc f) junk (create_item array (Pson null_field Null))
                  sz start_read ?d
           else Inr (array, ?d))"
      by (subst decode_array.simps) (simp add: decode_exhausted empty_value_def)
    show ?thesis
      unfolding Suc step Suc.IH [unfolded Suc] by simp
  qed
qed

lemma decode_object_exhausted:
  "decode_object fuel junk object sz start_read \<lparr>input = [], bytes_read = r\<rparr>
     = (if 0 < sz - (r - start_read) \<or> fuel = 0 then Inl OutOfFuel
        else Inr (object, \<lparr>input = [], bytes_read = r\<rparr>))"
proof (induction fuel arbitrary: object)
  case 0
  show ?case by (simp add: decode_object.simps)
next
  case (Suc fuel)
  show ?case
  proof (cases fuel)
    case 0
    then show ?thesis by (simp add: decode_object.simps decode_pair.simps)
  next
    case (Suc f)
    note f = this
    show ?thesis
    proof (cases f)
      case 0
      with f show ?thesis
        by (simp add: decode_object.simps decode_pair.simps decode.simps
            pb_decode_varint32_exhausted pb_read_string_def read_exhausted)
    next
      case (Suc g)
      let ?d = "\<lparr>input = [] :: byte list, bytes_read = r\<rparr>"
      have step: "decode_object (Suc (Suc (Suc g))) junk object sz start_read ?d
          = (if 0 < sz - (r - start_read)
             then decode_object (Suc (Suc g)) junk
                    (create_item object ([0], Pson null_field Null)) sz start_read ?d
             else Inr (object, ?d))"
        by (subst decode_object.simps) (simp add: decode_pair_exhausted)
      show ?thesis
        unfolding f Suc step Suc.IH [unfolded f Suc] by simp
    qed
  qed
qed

lemma decode_lone_byte_any_fuel:
  "decode fuel junk val \<lparr>input = [b], bytes_read = n\<rparr> = Inl OutOfFuel
   \<or> (\<exists>v. decode fuel junk val \<lparr>input = [b], bytes_read = n\<rparr>
            = Inr (v, \<lparr>input = [], bytes_read = n + 1\<rparr>))"
proof (cases fuel)
  case 0
  then show ?thesis by (simp add: decode.simps)
next
  case (Suc f)
  show ?thesis
  proof (cases f)
    case 0
    with Suc show ?thesis
      by (simp add: decode.simps decode_object.simps decode_array.simps Let_def
          pb_decode_tag_def pb_decode_varint32_last_byte
          pb_decode_varint32_exhausted pb_read_varint_exhausted read_exhausted
          pb_read_string_def pb_skip_def)
  next
    case (Suc g)
    with \<open>fuel = Suc f\<close> decode_after_lone_tag_byte [of g junk val b n] show ?thesis
      by (simp add: Let_def)
  qed
qed


lemma decode_array_truncated:
  assumes "0 < sz - (n - start_read)" and "0 < sz - (n + 1 - start_read)"
  shows "decode_array fuel junk array sz start_read \<lparr>input = [b], bytes_read = n\<rparr>
           = Inl OutOfFuel"
proof (cases fuel)
  case 0
  then show ?thesis by (simp add: decode_array.simps)
next
  case (Suc f)
  from decode_lone_byte_any_fuel [of f junk empty_value b n] show ?thesis
  proof
    assume "decode f junk empty_value \<lparr>input = [b], bytes_read = n\<rparr> = Inl OutOfFuel"
    with assms(1) Suc show ?thesis by (simp add: decode_array.simps)
  next
    assume "\<exists>v. decode f junk empty_value \<lparr>input = [b], bytes_read = n\<rparr>
                = Inr (v, \<lparr>input = [], bytes_read = n + 1\<rparr>)"
    then obtain v where "decode f junk empty_value \<lparr>input = [b], bytes_read = n\<rparr>
                = Inr (v, \<lparr>input = [], bytes_read = n + 1\<rparr>)" ..
    with assms Suc show ?thesis
      by (simp add: decode_array.simps decode_array_exhausted)
  qed
qed

text \<open>
  Claim C3, as the source has it. \<^verbatim>\<open>decode(pson&)\<close> returns \<^verbatim>\<open>void\<close> and drops the
  results of \<^verbatim>\<open>pb_read_varint\<close>, \<^verbatim>\<open>pb_read_string\<close>, \<^verbatim>\<open>read\<close> and \<^verbatim>\<open>pb_skip\<close>: no
  failure is reported. For a stream that ends after a tag byte:
  \<^item> the call of \<^verbatim>\<open>decode(pson&)\<close> that reads this last byte returns, with exactly that
    byte consumed and counted, nothing read beyond the source, and the value as the lemma
    \<open>decode_after_lone_tag_byte\<close> describes it (first conjunct); when this is the call the
    user made, decoding stops there;
  \<^item> once the source is exhausted, the loop of an enclosing array or object ends if and
    only if exactly its declared length has been consumed; otherwise it never ends, and
    no amount of fuel gives a result (second and third conjunct);
  \<^item> so decoding an item of an array from the last byte of the stream never returns when
    the declared length of the array is reached neither before nor with that byte (fourth
    conjunct). The theorem is then applied to the array 0x62 0x02 0x4A and to the object
    0x5A 0x05 0x01 0x61 0x4A, both cut after the tag byte of a string.
\<close>

theorem decode_at_end_of_stream:
  "decode (Suc (Suc fuel)) junk val \<lparr>input = [b], bytes_read = n\<rparr> =
     (let temp = (ucast (b AND 0x7F) :: 32 word);
          wire_type = temp AND 0x07;
          field_number = drop_bit 3 temp;
          payload =
            (if wire_type = length_delimited then
               (if field_number = string_field then Buf [0]
                else if field_number = bytes_field then Buf [0]
                else if field_number = object_field then Obj []
                else if field_number = array_field then Arr []
                else get_value val)
             else if field_number = float_field then Buf (stale junk 4)
             else if field_number = double_field then Buf (stale junk 8)
             else get_value val)
      in Inr (Pson field_number payload, \<lparr>input = [], bytes_read = n + 1\<rparr>))
   \<and> decode_array fuel' junk array sz start_read \<lparr>input = [], bytes_read = r\<rparr>
       = (if 0 < sz - (r - start_read) \<or> fuel' = 0 then Inl OutOfFuel
          else Inr (array, \<lparr>input = [], bytes_read = r\<rparr>))
   \<and> decode_object fuel' junk object sz start_read \<lparr>input = [], bytes_read = r\<rparr>
       = (if 0 < sz - (r - start_read) \<or> fuel' = 0 then Inl OutOfFuel
          else Inr (object, \<lparr>input = [], bytes_read = r\<rparr>))
   \<and> (0 < sz - (n - start_read) \<and> 0 < sz - (n + 1 - start_read) \<longrightarrow>
        decode_array fuel' junk array sz start_read \<lparr>input = [b], bytes_read = n\<rparr>
          = Inl OutOfFuel)"
  using decode_after_lone_tag_byte [of fuel junk val b n]
    decode_array_exhausted [of fuel' junk array sz start_read r]
    decode_object_exhausted [of fuel' junk object sz start_read r]
    decode_array_truncated [of sz n start_read fuel' junk array b]
  by (simp only: simp_thms imp_conjL) blast

theorem decode_at_end_of_stream_witness:
  "(\<forall>fuel. decode fuel of_nat empty_value \<lparr>input = [0x62, 0x02, 0x4A], bytes_read = 0\<rparr>
        = Inl OutOfFuel)
   \<and> (\<forall>fuel. decode fuel of_nat empty_value
                 \<lparr>input = [0x5A, 0x05, 0x01, 0x61, 0x4A], bytes_read = 0\<rparr>
        = Inl OutOfFuel)"
proof (intro conjI allI)
  fix fuel
  have t: "0 < (2 :: 64 word) - (2 - 2) \<and> 0 < (2 :: 64 word) - (2 + 1 - 2)" by simp
  from decode_at_end_of_stream [where junk = of_nat and b = "0x4A" and n = 2
      and array = "[]" and sz = 2 and start_read = 2] t
  have a: "decode_array f of_nat [] 2 2 \<lparr>input = [0x4A], bytes_read = 2\<rparr> = Inl OutOfFuel"
    for f by blast
  show "decode fuel of_nat empty_value \<lparr>input = [0x62, 0x02, 0x4A], bytes_read = 0\<rparr>
        = Inl OutOfFuel"
  proof (cases fuel)
    case 0
    then show ?thesis by (simp add: decode.simps)
  next
    case (Suc f)
    then show ?thesis
      by (simp add: decode.simps pb_decode_tag_def pb_decode_varint32_def
          pb_decode_varint32_loop.simps a)
  qed
next
  fix fuel
  from decode_at_end_of_stream [where junk = of_nat and sz = 5 and start_read = 2 and r = 5]
  have o: "decode_object f of_nat object 5 2 \<lparr>input = [], bytes_read = 5\<rparr> = Inl OutOfFuel"
    for f object by simp
  show "decode fuel of_nat empty_value
                 \<lparr>input = [0x5A, 0x05, 0x01, 0x61, 0x4A], bytes_read = 0\<rparr>
        = Inl OutOfFuel"
  proof (cases fuel)
    case 0
    then show ?thesis by (simp add: decode.simps)
  next
    case (Suc f)
    note f = this
    show ?thesis
    proof (cases f)
      case 0
      with f show ?thesis
        by (simp add: decode.simps pb_decode_tag_def pb_decode_varint32_def
            pb_decode_varint32_loop.simps decode_object.simps)
    next
      case (Suc g)
      note g = this
      have p: "decode_pair g of_nat \<lparr>input = [0x01, 0x61, 0x4A], bytes_read = 2\<rparr> = Inl OutOfFuel
         \<or> (\<exists>pair. decode_pair g of_nat \<lparr>input = [0x01, 0x61, 0x4A], bytes_read = 2\<rparr>
               = Inr (pair, \<lparr>input = [], bytes_read = 5\<rparr>))"
      proof (cases g)
        case 0
        then show ?thesis by (simp add: decode_pair.simps)
      next
        case (Suc k)
        from decode_lone_byte_any_fuel [of k of_nat empty_value "0x4A" 4] Suc show ?thesis
          by (auto simp: decode_pair.simps pb_decode_varint32_def
              pb_decode_varint32_loop.simps pb_read_string_def read_def)
      qed
      from p show ?thesis
      proof
        assume "decode_pair g of_nat \<lparr>input = [0x01, 0x61, 0x4A], bytes_read = 2\<rparr> = Inl OutOfFuel"
        with f g show ?thesis
          by (simp add: decode.simps pb_decode_tag_def pb_decode_varint32_def
              pb_decode_varint32_loop.simps decode_object.simps)
      next
        assume "\<exists>pair. decode_pair g of_nat \<lparr>input = [0x01, 0x61, 0x4A], bytes_read = 2\<rparr>
               = Inr (pair, \<lparr>input = [], bytes_read = 5\<rparr>)"
        then obtain pair where
          "decode_pair g of_nat \<lparr>input = [0x01, 0x61, 0x4A], bytes_read = 2\<rparr>
               = Inr (pair, \<lparr>input = [], bytes_read = 5\<rparr>)" ..
        with f g o show ?thesis
          by (simp add: decode.simps pb_decode_tag_def pb_decode_varint32_def
              pb_decode_varint32_loop.simps decode_object.simps)
      qed
    qed
  qed
qed

text \<open>
  Claim C3, as stated, fails. The stream that ends after the tag byte 0x4A of a string
  decodes to the same value as the complete stream 0x4A 0x00 of the empty string, and in
  both cases \<^verbatim>\<open>bytes_read()\<close> is the length of the stream: the caller is told of no
  failure. After the tag byte 0x08 of a varint, \<^verbatim>\<open>pb_read_varint\<close> returns \<^verbatim>\<open>false\<close>
  and \<^verbatim>\<open>decode\<close> returns as after any field, the value a varint without payload.
\<close>

theorem truncated_stream_decodes_without_failure:
  "decode (Suc 0) of_nat empty_value \<lparr>input = [0x4A], bytes_read = 0\<rparr>
     = Inr (Pson string_field (Buf [0]), \<lparr>input = [], bytes_read = 1\<rparr>)
   \<and> decode (Suc 0) of_nat empty_value \<lparr>input = [0x4A, 0x00], bytes_read = 0\<rparr>
     = Inr (Pson string_field (Buf [0]), \<lparr>input = [], bytes_read = 2\<rparr>)
   \<and> pb_read_varint \<lparr>input = [], bytes_read = 1\<rparr>
     = Inr (None, \<lparr>input = [], bytes_read = 1\<rparr>)
   \<and> decode (Suc 0) of_nat empty_value \<lparr>input = [0x08], bytes_read = 0\<rparr>
     = Inr (Pson varint_field Null, \<lparr>input = [], bytes_read = 1\<rparr>)"
  by (simp add: decode.simps Let_def pb_decode_tag_def pb_decode_varint32_def
      pb_decode_varint32_loop.simps pb_read_varint_def pb_read_varint_loop.simps read_def
      pb_read_string_def empty_value_def)

section \<open>Looking a name up in an object\<close>

lemma find_name_None_iff:
  "(find_name object name = None) = (\<forall>item\<in>set object. \<not> strcmp_eq (fst item) name)"
  by (induction object) auto

lemma find_name_Some:
  "find_name object name = Some i \<Longrightarrow>
     i < length object \<and> strcmp_eq (fst (object ! i)) name
     \<and> (\<forall>j<i. \<not> strcmp_eq (fst (object ! j)) name)"
proof (induction object arbitrary: i)
  case Nil
  then show ?case by simp
next
  case (Cons item rest)
  show ?case
  proof (cases "strcmp_eq (fst item) name")
    case True
    with Cons.prems show ?thesis by simp
  next
    case False
    with Cons.prems obtain k where k: "find_name rest name = Some k" "i = Suc k" by auto
    from Cons.IH [OF k(1)] False k(2) show ?thesis
      by (auto simp: less_Suc_eq_0_disj)
  qed
qed

lemma find_name_names:
  "map fst object = map fst object' \<Longrightarrow> find_name object name = find_name object' name"
proof (induction object arbitrary: object')
  case Nil
  then show ?case by simp
next
  case (Cons item rest)
  then obtain item' rest' where o: "object' = item' # rest'" by (cases object') auto
  with Cons.prems have "fst item = fst item'" "map fst rest = map fst rest'" by simp_all
  with Cons.IH [of rest'] o show ?case by simp
qed

lemma find_name_assigned:
  "i < length object \<Longrightarrow>
     find_name (object[i := (fst (object ! i), v)]) name = find_name object name"
proof (rule find_name_names)
  assume "i < length object"
  then have "(map fst object)[i := fst (object ! i)] = map fst object"
    by (metis list_update_id nth_map)
  then show "map fst (object[i := (fst (object ! i), v)]) = map fst object"
    by (simp add: map_update)
qed

lemma strcmp_eq_set_name: "strcmp_eq (set_name name) name"
proof -
  have "takeWhile (\<lambda>c. c \<noteq> 0) (takeWhile (\<lambda>c. c \<noteq> 0) name @ [0 :: byte])
          = takeWhile (\<lambda>c. c \<noteq> 0) name"
    by (induction name) auto
  then show ?thesis by (simp add: strcmp_eq_def set_name_def)
qed

lemma find_name_created:
  "find_name object name = None \<Longrightarrow>
     find_name (object @ [(set_name name, v)]) name = Some (length object)"
  by (induction object) (auto simp: strcmp_eq_set_name split: if_splits)

lemma subscript_semantics:
  "subscript object name = (i, object') \<Longrightarrow>
     i < length object' \<and> strcmp_eq (fst (object' ! i)) name
     \<and> (object' = object \<or> object' = object @ [(set_name name, empty_value)])
     \<and> subscript (object'[i := (fst (object' ! i), v)]) name
        = (i, object'[i := (fst (object' ! i), v)])"
proof (cases "find_name object name")
  case None
  assume a: "subscript object name = (i, object')"
  with None have i: "i = length object" and o: "object' = object @ [(set_name name, empty_value)]"
    by (simp_all add: subscript_def create_item_def)
  have f: "find_name object' name = Some i"
    using find_name_created [OF None] i o by simp
  have "i < length object'" using i o by simp
  with f find_name_assigned [of i object' v name] i o show ?thesis
    by (simp add: subscript_def strcmp_eq_set_name)
next
  case (Some k)
  assume a: "subscript object name = (i, object')"
  with Some have i: "i = k" and o: "object' = object" by (simp_all add: subscript_def)
  from find_name_Some [OF Some] i o have l: "i < length object'"
    and m: "strcmp_eq (fst (object' ! i)) name" by simp_all
  with Some i o find_name_assigned [of i object' v name] show ?thesis
    by (simp add: subscript_def)
qed

lemma subscript_const_absent:
  "\<forall>item\<in>set object. \<not> strcmp_eq (fst item) name \<Longrightarrow> subscript_const object name = empty_value"
  by (induction object) auto

section \<open>Decoding two pairs of one name\<close>

lemma byte_low7: "b < 0x80 \<Longrightarrow> (b :: byte) AND 0x7F = b"
  using less_mask_eq [of b 7] by (simp add: mask_eq_exp_minus_1)

lemma pb_decode_varint32_one_byte:
  assumes "b < 0x80"
  shows "pb_decode_varint32 \<lparr>input = b # rest, bytes_read = n\<rparr>
       = (ucast b, \<lparr>input = rest, bytes_read = n + 1\<rparr>)"
proof -
  have "\<not> 0x80 < b" using assms by simp
  then show ?thesis
    by (simp add: pb_decode_varint32_def pb_decode_varint32_loop.simps [of _ 0 0]
        byte_low7 [OF assms] Let_def)
qed

lemma read_prefix:
  "read \<lparr>input = xs @ rest, bytes_read = n\<rparr> (length xs)
     = (Some xs, \<lparr>input = rest, bytes_read = n + of_nat (length xs)\<rparr>)"
  by (simp add: read_def)

lemma small_byte:
  assumes "k < 128"
  shows "(of_nat k :: byte) < 0x80"
    and "(ucast (of_nat k :: byte) :: 32 word) = of_nat k"
    and "unat (of_nat k :: 32 word) = k"
proof -
  have u: "unat (of_nat k :: byte) = k" using assms by (simp add: unat_of_nat)
  then show "(of_nat k :: byte) < 0x80" using assms by (simp add: word_less_nat_alt)
  have "(ucast (of_nat k :: byte) :: 32 word) = of_nat (unat (of_nat k :: byte))" by simp
  then show "(ucast (of_nat k :: byte) :: 32 word) = of_nat k" by (simp only: u)
  show "unat (of_nat k :: 32 word) = k" using assms by (simp add: unat_of_nat)
qed

lemma decode_pair_named:
  assumes "unat nb = length nm" "nb < 0x80"
  shows "decode_pair (Suc fuel) junk \<lparr>input = nb # nm @ rest, bytes_read = n\<rparr>
       = (case decode fuel junk empty_value
                 \<lparr>input = rest, bytes_read = n + 1 + of_nat (length nm)\<rparr> of
            Inl f \<Rightarrow> Inl f
          | Inr (v, d3) \<Rightarrow> Inr ((nm @ [0], v), d3))"
proof -
  have lt: "unat nb < 128" using assms(2) by (simp add: word_less_nat_alt)
  then have "unat nb < 2 ^ 32" by simp
  then have u: "unat (ucast nb :: 32 word) = length nm"
    using assms(1) by (simp add: unsigned_ucast_eq take_bit_nat_eq_self)
  have "unat ((ucast nb :: 32 word) + 1) = (length nm + 1) mod 2 ^ 32"
    by (simp add: unat_word_ariths u)
  also have "\<dots> = length nm + 1" using lt assms(1) by simp
  finally have "(ucast nb :: 32 word) + 1 \<noteq> 0" by (metis Suc_eq_plus1 nat.distinct(1) unat_0)
  with u show ?thesis
    by (simp add: decode_pair.simps pb_decode_varint32_one_byte [OF assms(2)]
        pb_read_string_def read_prefix)
qed

lemma decode_flag:
  "decode (Suc fuel) junk val \<lparr>input = 0x38 # rest, bytes_read = n\<rparr>
     = Inr (Pson zero_field (get_value val), \<lparr>input = rest, bytes_read = n + 1\<rparr>)"
  "decode (Suc fuel) junk val \<lparr>input = 0x40 # rest, bytes_read = n\<rparr>
     = Inr (Pson one_field (get_value val), \<lparr>input = rest, bytes_read = n + 1\<rparr>)"
  by (simp_all add: decode.simps pb_decode_tag_def pb_decode_varint32_one_byte)


lemma object_loop_test: "(0 < (sz :: 64 word) - (r - st)) = (r \<noteq> st + sz)"
proof -
  have "(sz - (r - st) = 0) = (r = st + sz)" by (auto simp: algebra_simps)
  then show ?thesis by (simp add: word_greater_zero_iff)
qed

lemma of_nat_64_neq:
  "a < 2 ^ 64 \<Longrightarrow> b < 2 ^ 64 \<Longrightarrow> a \<noteq> b \<Longrightarrow> (of_nat a :: 64 word) \<noteq> of_nat b"
proof
  assume a: "a < 2 ^ 64" "b < 2 ^ 64" "a \<noteq> b" and e: "(of_nat a :: 64 word) = of_nat b"
  from e have "unat (of_nat a :: 64 word) = unat (of_nat b :: 64 word)" by simp
  with a show False by (simp add: unat_of_nat)
qed

lemma decode_two_pairs_of_one_name_bytes:
  assumes nb: "unat nb = length nm" "nb < 0x80"
    and lb: "unat lb = 2 * length nm + 4" "lb < 0x80"
  shows "decode (Suc (Suc (Suc (Suc (Suc fuel))))) junk val
           \<lparr>input = 0x5A # lb # nb # nm @ 0x38 # nb # nm @ [0x40], bytes_read = n\<rparr>
       = Inr (Pson object_field
                (Obj [(nm @ [0], Pson zero_field Null), (nm @ [0], Pson one_field Null)]),
              \<lparr>input = [], bytes_read = n + of_nat (2 * length nm + 6)\<rparr>)"
proof -
  let ?k = "length nm"
  define st where "st = n + 1 + 1"
  define sz :: "64 word" where "sz = ucast (ucast lb :: 32 word)"
  define d2 where "d2 = \<lparr>input = nb # nm @ 0x38 # nb # nm @ [0x40], bytes_read = st\<rparr>"
  define d5 where "d5 = \<lparr>input = nb # nm @ [0x40], bytes_read = st + of_nat (?k + 2)\<rparr>"
  define d8 where "d8 = \<lparr>input = [] :: byte list, bytes_read = st + of_nat (2 * ?k + 4)\<rparr>"
  define p1 where "p1 = (nm @ [0 :: byte], Pson zero_field Null)"
  define p2 where "p2 = (nm @ [0 :: byte], Pson one_field Null)"
  have k: "?k < 128" using nb by (simp add: word_less_nat_alt)
  have "unat lb < 128" using lb(2) by (simp add: word_less_nat_alt)
  then have "unat lb < 2 ^ 32" by simp
  then have "unat (ucast lb :: 32 word) = 2 * ?k + 4"
    using lb(1) by (simp add: unsigned_ucast_eq take_bit_nat_eq_self)
  moreover have "sz = of_nat (unat (ucast lb :: 32 word))" by (simp add: sz_def)
  ultimately have sz: "sz = of_nat (2 * ?k + 4)" by simp
  have P1: "decode_pair (Suc (Suc f)) junk d2 = Inr (p1, d5)" for f
    using decode_pair_named [OF nb, of "Suc f" junk "0x38 # nb # nm @ [0x40]"]
    by (simp add: d2_def d5_def p1_def decode_flag empty_value_def algebra_simps)
  have P2: "decode_pair (Suc (Suc f)) junk d5 = Inr (p2, d8)" for f
    using decode_pair_named [OF nb, of "Suc f" junk "[0x40]"]
    by (simp add: d5_def d8_def p2_def decode_flag empty_value_def algebra_simps)
  have T0: "0 < sz - (bytes_read d2 - st)"
    unfolding object_loop_test sz
    using of_nat_64_neq [of 0 "2 * ?k + 4"] k by (simp add: d2_def)
  have T1: "0 < sz - (bytes_read d5 - st)"
    unfolding object_loop_test sz
    using of_nat_64_neq [of "?k + 2" "2 * ?k + 4"] k by (simp add: d5_def)
  have T2: "\<not> 0 < sz - (bytes_read d8 - st)"
    unfolding object_loop_test sz by (simp add: d8_def)
  have s3: "decode_object (Suc f) junk [p1, p2] sz st d8 = Inr ([p1, p2], d8)" for f
    using T2 by (simp add: decode_object.simps)
  have s2: "decode_object (Suc (Suc (Suc f))) junk [p1] sz st d5 = Inr ([p1, p2], d8)" for f
    using T1 P2 [of f] s3 [of "Suc f"] by (simp add: decode_object.simps create_item_def)
  have s1: "decode_object (Suc (Suc (Suc (Suc f)))) junk [] sz st d2 = Inr ([p1, p2], d8)" for f
    using T0 P1 [of "Suc f"] s2 [of f] by (simp add: decode_object.simps create_item_def)
  have tag: "pb_decode_tag \<lparr>input = 0x5A # lb # nb # nm @ 0x38 # nb # nm @ [0x40], bytes_read = n\<rparr>
               = (length_delimited, object_field, \<lparr>input = lb # nb # nm @ 0x38 # nb # nm @ [0x40], bytes_read = n + 1\<rparr>)"
    by (simp add: pb_decode_tag_def pb_decode_varint32_one_byte)
  have len: "pb_decode_varint32 \<lparr>input = lb # nb # nm @ 0x38 # nb # nm @ [0x40], bytes_read = n + 1\<rparr>
               = (ucast lb, d2)"
    by (simp add: pb_decode_varint32_one_byte [OF lb(2)] d2_def st_def)
  have "bytes_read d2 = st" by (simp add: d2_def)
  with s1 [of fuel] tag len have
    "decode (Suc (Suc (Suc (Suc (Suc fuel))))) junk val
           \<lparr>input = 0x5A # lb # nb # nm @ 0x38 # nb # nm @ [0x40], bytes_read = n\<rparr>
       = Inr (Pson object_field (Obj [p1, p2]), d8)"
    by (simp add: decode.simps sz_def)
  then show ?thesis
    by (simp add: p1_def p2_def d8_def st_def algebra_simps)
qed


text \<open>
  What holds of the lookups, and of decoding two pairs of one name \<open>nm\<close> of at most 61
  bytes (so that the body of the object has fewer than 128 bytes). The const lookup of a
  name that no pair of the object has returns \<^verbatim>\<open>pson::empty_value\<close>. The mutable lookup
  returns the first pair with the name and leaves the object as it is when there is one,
  and appends exactly one pair of that name otherwise; after any assignment to the value
  of the pair it returned, the lookup of the name returns the same position and leaves the
  object as it is.
\<close>

lemma subscript_present:
  assumes "\<exists>item\<in>set object. strcmp_eq (fst item) name"
  shows "\<exists>i. subscript object name = (i, object) \<and> i < length object
           \<and> strcmp_eq (fst (object ! i)) name
           \<and> (\<forall>j<i. \<not> strcmp_eq (fst (object ! j)) name)"
proof -
  from assms have "find_name object name \<noteq> None" by (simp add: find_name_None_iff)
  then obtain i where i: "find_name object name = Some i" by auto
  from find_name_Some [OF i] i show ?thesis by (simp add: subscript_def)
qed

lemma subscript_absent:
  assumes "\<forall>item\<in>set object. \<not> strcmp_eq (fst item) name"
  shows "subscript object name = (length object, object @ [(set_name name, empty_value)])"
proof -
  from assms have "find_name object name = None" by (simp add: find_name_None_iff)
  then show ?thesis by (simp add: subscript_def create_item_def)
qed

lemma object_lookup_short_names:
  assumes "\<forall>item\<in>set obj. \<not> strcmp_eq (fst item) absent"
    and "length nm \<le> 61"
  shows "subscript_const [] absent = empty_value
     \<and> subscript_const obj absent = empty_value
     \<and> (case subscript object name of
          (i, object') \<Rightarrow>
            i < length object' \<and> strcmp_eq (fst (object' ! i)) name
            \<and> (object' = object \<or> object' = object @ [(set_name name, empty_value)])
            \<and> subscript (object'[i := (fst (object' ! i), v)]) name
                = (i, object'[i := (fst (object' ! i), v)]))
     \<and> decode (Suc (Suc (Suc (Suc (Suc fuel))))) junk val
           \<lparr>input = 0x5A # of_nat (2 * length nm + 4)
                     # of_nat (length nm) # nm @ 0x38
                     # of_nat (length nm) # nm @ [0x40],
            bytes_read = n\<rparr>
         = Inr (Pson object_field
                  (Obj [(nm @ [0], Pson zero_field Null), (nm @ [0], Pson one_field Null)]),
                \<lparr>input = [], bytes_read = n + of_nat (2 * length nm + 6)\<rparr>)"
proof (intro conjI)
  show "subscript_const [] absent = empty_value" by simp
  show "subscript_const obj absent = empty_value"
    using assms(1) by (rule subscript_const_absent)
  show "case subscript object name of
          (i, object') \<Rightarrow>
            i < length object' \<and> strcmp_eq (fst (object' ! i)) name
            \<and> (object' = object \<or> object' = object @ [(set_name name, empty_value)])
            \<and> subscript (object'[i := (fst (object' ! i), v)]) name
                = (i, object'[i := (fst (object' ! i), v)])"
    using subscript_semantics [of object name _ _ v]
    by (cases "subscript object name") simp
  have k: "length nm < 128" and s: "2 * length nm + 4 < 128" using assms(2) by simp_all
  have nb: "unat (of_nat (length nm) :: byte) = length nm" using k by (simp add: unat_of_nat)
  have lb: "unat (of_nat (2 * length nm + 4) :: byte) = 2 * length nm + 4"
  proof -
    have "(2 * length nm + 4) mod 2 ^ LENGTH(8) = 2 * length nm + 4" using s by simp
    then show ?thesis by (simp only: unat_of_nat)
  qed
  show "decode (Suc (Suc (Suc (Suc (Suc fuel))))) junk val
           \<lparr>input = 0x5A # of_nat (2 * length nm + 4)
                     # of_nat (length nm) # nm @ 0x38
                     # of_nat (length nm) # nm @ [0x40],
            bytes_read = n\<rparr>
         = Inr (Pson object_field
                  (Obj [(nm @ [0], Pson zero_field Null), (nm @ [0], Pson one_field Null)]),
                \<lparr>input = [], bytes_read = n + of_nat (2 * length nm + 6)\<rparr>)"
    by (rule decode_two_pairs_of_one_name_bytes [OF nb small_byte(1) [OF k] lb small_byte(1) [OF s]])
qed

text \<open>
  Claim C6, at the stream of an object with two pairs of one name of 62 characters
  \<^verbatim>\<open>a\<close>, holding a zero and a one. The body has 128 bytes, so its length is written
  as 0x80 0x01 (the bytes are those the encoder writes for such an object). The decoder
  reads the length as 0: the object it returns is empty, neither pair is kept, and 129
  bytes stay in the source.
\<close>

theorem two_pairs_of_a_62_byte_name_lost:
  "length ([0x3E] @ replicate 62 0x61 @ [0x38, 0x3E] @ replicate 62 (0x61 :: byte) @ [0x40]) = 128
   \<and> varint_spec 128 = [0x80, 0x01]
   \<and> encode write_mem
         (Pson object_field
            (Obj [(replicate 62 0x61 @ [0], Pson zero_field Null),
                  (replicate 62 0x61 @ [0], Pson one_field Null)]))
         pson_encoder
       = Some \<lparr>out = [0x5A, 0x80, 0x01, 0x3E] @ replicate 62 0x61 @ [0x38, 0x3E]
                       @ replicate 62 0x61 @ [0x40],
                bytes_written = 131\<rparr>
   \<and> decode (Suc (Suc fuel)) junk val
         \<lparr>input = [0x5A, 0x80, 0x01, 0x3E] @ replicate 62 0x61 @ [0x38, 0x3E]
                    @ replicate 62 0x61 @ [0x40],
          bytes_read = 0\<rparr>
       = Inr (Pson object_field (Obj []),
              \<lparr>input = [0x01, 0x3E] @ replicate 62 0x61 @ [0x38, 0x3E]
                         @ replicate 62 0x61 @ [0x40],
               bytes_read = 2\<rparr>)"
proof (intro conjI)
  show "length ([0x3E] @ replicate 62 0x61 @ [0x38, 0x3E] @ replicate 62 (0x61 :: byte) @ [0x40]) = 128"
    by simp
  show "varint_spec 128 = [0x80, 0x01]" by (simp add: varint_spec.simps)
  have s: "strlen (replicate 62 (0x61 :: byte) @ [0]) = Some 62"
    using strlen_terminated [of "replicate 62 (0x61 :: byte)" "[]"] by simp
  show "encode write_mem
         (Pson object_field
            (Obj [(replicate 62 0x61 @ [0], Pson zero_field Null),
                  (replicate 62 0x61 @ [0], Pson one_field Null)]))
         pson_encoder
       = Some \<lparr>out = [0x5A, 0x80, 0x01, 0x3E] @ replicate 62 0x61 @ [0x38, 0x3E]
                       @ replicate 62 0x61 @ [0x40],
                bytes_written = 131\<rparr>"
    by (simp add: encode.simps encode_object.simps encode_pair.simps pb_encode_string_def s
        pb_encode_tag_def pb_encode_varint.simps write_mem_def write_base_def
        pson_encoder_def)
  show "decode (Suc (Suc fuel)) junk val
         \<lparr>input = [0x5A, 0x80, 0x01, 0x3E] @ replicate 62 0x61 @ [0x38, 0x3E]
                    @ replicate 62 0x61 @ [0x40],
          bytes_read = 0\<rparr>
       = Inr (Pson object_field (Obj []),
              \<lparr>input = [0x01, 0x3E] @ replicate 62 0x61 @ [0x38, 0x3E]
                         @ replicate 62 0x61 @ [0x40],
               bytes_read = 2\<rparr>)"
    by (simp add: decode.simps decode_object.simps pb_decode_tag_def pb_decode_varint32_def
        pb_decode_varint32_loop.simps)
qed

section \<open>Assigning integers of every type\<close>

text \<open>
  The integer assignment does what the spec says at every value but the least one of a
  signed type: the tag is zero, one, svarint or varint, and the block holds the varint of
  the spec of the absolute value. The same holds at every value of an unsigned type.
\<close>

lemma unat_scast_magnitude:
  fixes v :: "'a::len word"
  assumes len: "LENGTH('a) \<le> 64" and nl: "sint v \<noteq> - (2 ^ (LENGTH('a) - 1))"
  shows "unat (scast (if 0 <s v then v else - v) :: 64 word) = nat \<bar>sint v\<bar>"
proof -
  let ?n = "LENGTH('a) - 1"
  let ?m = "if 0 <s v then v else - v"
  have lo: "- (2 ^ ?n) \<le> sint v" by (rule sint_ge)
  have hi: "sint v < 2 ^ ?n" by (rule sint_lt)
  have sm: "sint ?m = \<bar>sint v\<bar>"
  proof (cases "0 <s v")
    case True
    then show ?thesis by (simp add: word_sless_alt)
  next
    case False
    then have le: "sint v \<le> 0" by (simp add: word_sless_alt)
    have "sint (- v) = signed_take_bit ?n (- sint v)" by (simp add: sint_word_ariths)
    also have "\<dots> = - sint v"
      using lo hi nl by (intro signed_take_bit_int_eq_self) simp_all
    finally show ?thesis using False le by simp
  qed
  have "(2 :: int) ^ ?n \<le> 2 ^ 63" using len by (intro power_increasing) simp_all
  with hi lo have b: "\<bar>sint v\<bar> < 2 ^ 64" by simp
  have "uint (word_of_int \<bar>sint v\<bar> :: 64 word) = \<bar>sint v\<bar> mod 2 ^ 64"
    by (simp add: uint_word_of_int)
  also have "\<dots> = \<bar>sint v\<bar>" using b by simp
  finally have "unat (word_of_int \<bar>sint v\<bar> :: 64 word) = nat \<bar>sint v\<bar>"
    by (simp add: unat_eq_nat_uint)
  then show ?thesis by (simp only: scast_eq sm)
qed

lemma not_least_int:
  "(v :: 32 word) \<noteq> 2 ^ (LENGTH(32) - 1) \<Longrightarrow> sint v \<noteq> - (2 ^ (LENGTH(32) - 1))"
proof
  assume a: "v \<noteq> 2 ^ (LENGTH(32) - 1)" and b: "sint v = - (2 ^ (LENGTH(32) - 1))"
  have "v = word_of_int (sint v)" by simp
  with b have "v = 2 ^ (LENGTH(32) - 1)" by simp
  with a show False by simp
qed

lemma not_least_int64:
  "(v :: 64 word) \<noteq> 2 ^ (LENGTH(64) - 1) \<Longrightarrow> sint v \<noteq> - (2 ^ (LENGTH(64) - 1))"
proof
  assume a: "v \<noteq> 2 ^ (LENGTH(64) - 1)" and b: "sint v = - (2 ^ (LENGTH(64) - 1))"
  have "v = word_of_int (sint v)" by simp
  with b have "v = 2 ^ (LENGTH(64) - 1)" by simp
  with a show False by simp
qed


lemma assign_int_in_range:
  fixes v :: "32 word"
  assumes "v \<noteq> 2 ^ (LENGTH(32) - 1)"
  shows "get_type (assign_signed ov v p) =
     (if sint v = 0 then zero_field else if sint v = 1 then one_field
      else if sint v < 0 then svarint_field else varint_field)
   \<and> get_value (assign_signed ov v p) =
     (if sint v = 0 \<or> sint v = 1 then get_value p else Buf (varint_spec (nat \<bar>sint v\<bar>)))"
proof -
  have z: "(sint v = 0) = (v = 0)" by (simp add: signed_eq_0_iff)
  have o: "(sint v = 1) = (v = 1)" using signed_word_eqI [of v 1] by auto
  have n: "(sint v < 0) = (v <s 0)" by (simp add: word_sless_alt)
  have c: "c_neg ov v = - v" using assms by (simp add: c_neg_def)
  have m: "pson_pb_encode_varint (scast (if 0 <s v then v else c_neg ov v))
             = varint_spec (nat \<bar>sint v\<bar>)"
    unfolding pson_pb_encode_varint_spec c
    using unat_scast_magnitude [of v, OF _ not_least_int [OF assms]] by simp
  show ?thesis
    unfolding z o n by (simp add: assign_signed_def Let_def m)
qed

lemma assign_int64_in_range:
  fixes v :: "64 word"
  assumes "v \<noteq> 2 ^ (LENGTH(64) - 1)"
  shows "get_type (assign_signed ov v p) =
     (if sint v = 0 then zero_field else if sint v = 1 then one_field
      else if sint v < 0 then svarint_field else varint_field)
   \<and> get_value (assign_signed ov v p) =
     (if sint v = 0 \<or> sint v = 1 then get_value p else Buf (varint_spec (nat \<bar>sint v\<bar>)))"
proof -
  have z: "(sint v = 0) = (v = 0)" by (simp add: signed_eq_0_iff)
  have o: "(sint v = 1) = (v = 1)" using signed_word_eqI [of v 1] by auto
  have n: "(sint v < 0) = (v <s 0)" by (simp add: word_sless_alt)
  have c: "c_neg ov v = - v" using assms by (simp add: c_neg_def)
  have m: "pson_pb_encode_varint (scast (if 0 <s v then v else c_neg ov v))
             = varint_spec (nat \<bar>sint v\<bar>)"
    unfolding pson_pb_encode_varint_spec c
    using unat_scast_magnitude [of v, OF _ not_least_int64 [OF assms]] by simp
  show ?thesis
    unfolding z o n using m by (auto simp add: assign_signed_def Let_def split: if_splits)
qed

lemma assign_unsigned_any:
  fixes v :: "'a::len word"
  assumes "LENGTH('a) \<le> 64"
  shows "get_type (assign_unsigned v p) =
     (if v = 0 then zero_field else if v = 1 then one_field else varint_field)
   \<and> get_value (assign_unsigned v p) =
     (if v = 0 \<or> v = 1 then get_value p else Buf (varint_spec (unat v)))"
proof -
  have "unat v < 2 ^ LENGTH('a)" by simp
  moreover have "(2 :: nat) ^ LENGTH('a) \<le> 2 ^ 64"
    using assms by (intro power_increasing) simp_all
  ultimately have "unat v < 2 ^ 64" by (rule less_le_trans)
  then have u: "unat (ucast v :: 64 word) = unat v"
    by (simp add: unsigned_ucast_eq take_bit_nat_eq_self)
  show ?thesis
    by (simp add: assign_unsigned_def Let_def pson_pb_encode_varint_spec u
        word_greater_zero_iff)
qed

lemma byte_set_high_low7: "((w :: byte) OR 0x80) AND 0x7F = w AND 0x7F"
proof -
  have "(w OR 0x80) AND 0x7F = (w AND 0x7F) OR (0x80 AND 0x7F)"
    by (rule bit.conj_disj_distrib2)
  then show ?thesis by simp
qed


lemma byte_of_nat_inj:
  assumes "x < 128" "y < 128" "(of_nat x :: byte) = of_nat y"
  shows "x = y"
proof -
  have "unat (of_nat x :: byte) = x" using assms(1) by (simp add: unat_of_nat)
  moreover have "unat (of_nat y :: byte) = y" using assms(2) by (simp add: unat_of_nat)
  ultimately show ?thesis using assms(3) by (metis (no_types))
qed

lemma byte_of_nat_less: "x < 128 \<Longrightarrow> (of_nat x :: byte) < 0x80"
  by (simp add: word_less_nat_alt unat_of_nat)

lemma continuation_byte_inj:
  assumes "x < 128" "y < 128" "(of_nat x :: byte) OR 0x80 = of_nat y OR 0x80"
  shows "x = y"
proof -
  from assms(3) have "((of_nat x :: byte) OR 0x80) AND 0x7F = (of_nat y OR 0x80) AND 0x7F"
    by simp
  then have "(of_nat x :: byte) = of_nat y"
    by (simp only: byte_set_high_low7 byte_low7 [OF byte_of_nat_less [OF assms(1)]]
        byte_low7 [OF byte_of_nat_less [OF assms(2)]])
  with assms(1,2) show ?thesis by (rule byte_of_nat_inj)
qed

lemma varint_spec_not_Nil: "varint_spec n \<noteq> []"
  by (simp add: varint_spec.simps [of n])

lemma varint_spec_inj: "varint_spec a = varint_spec b \<Longrightarrow> a = b"
proof (induction a arbitrary: b rule: varint_spec.induct)
  case (1 a)
  show ?case
  proof (cases "a < 128")
    case True
    show ?thesis
    proof (cases "b < 128")
      case b: True
      from "1.prems" True b have "(of_nat a :: byte) = of_nat b"
        by (simp add: varint_spec.simps [of a] varint_spec.simps [of b])
      with True b show ?thesis by (rule byte_of_nat_inj)
    next
      case False
      with "1.prems" True varint_spec_not_Nil [of "b div 128"] show ?thesis
        by (simp add: varint_spec.simps [of a] varint_spec.simps [of b])
    qed
  next
    case False
    show ?thesis
    proof (cases "b < 128")
      case True
      with "1.prems" False varint_spec_not_Nil [of "a div 128"] show ?thesis
        by (simp add: varint_spec.simps [of a] varint_spec.simps [of b])
    next
      case b: False
      from "1.prems" False b
      have h: "(of_nat (a mod 128) :: byte) OR 0x80 = of_nat (b mod 128) OR 0x80"
        and t: "varint_spec (a div 128) = varint_spec (b div 128)"
        by (simp_all add: varint_spec.simps [of a] varint_spec.simps [of b])
      have "a mod 128 = b mod 128"
        using h by (intro continuation_byte_inj) simp_all
      moreover have "a div 128 = b div 128" using "1.IH" [OF False t] .
      ultimately show ?thesis by (metis div_mult_mod_eq)
    qed
  qed
qed

lemma scast_int_not_2p31: "unat (scast (ov :: 32 word) :: 64 word) \<noteq> 2 ^ 31"
proof
  assume a: "unat (scast ov :: 64 word) = 2 ^ 31"
  have s: "sint (scast ov :: 64 word) = sint ov"
    by (rule sint_up_scast) (simp add: is_up)
  have u: "uint (scast ov :: 64 word) = sint ov mod 2 ^ 64"
    using uint_sint [of "scast ov :: 64 word"] by (simp add: s take_bit_eq_mod)
  have lo: "- (2 ^ 31) \<le> sint ov" using sint_ge [of ov] by simp
  have hi: "sint ov < 2 ^ 31" using sint_lt [of ov] by simp
  have "uint (scast ov :: 64 word) = int (unat (scast ov :: 64 word))" by simp
  also have "\<dots> = 2 ^ 31" by (simp only: a) simp
  finally have m: "sint ov mod 2 ^ 64 = 2 ^ 31" by (simp only: u)
  show False
  proof (cases "0 \<le> sint ov")
    case True
    with hi m show False by simp
  next
    case False
    have "sint ov mod 2 ^ 64 = (sint ov + 2 ^ 64) mod 2 ^ 64" by simp
    also have "\<dots> = sint ov + 2 ^ 64" using lo False by (intro mod_pos_pos_trivial) simp_all
    finally show False using m lo by simp
  qed
qed


text \<open>
  Claim C5, at \<^verbatim>\<open>T = int\<close> and the least value \<^verbatim>\<open>INT_MIN\<close> (the bit pattern
  0x80000000). The tag is svarint, but \<^verbatim>\<open>-value\<close> is computed in \<^verbatim>\<open>int\<close>, where it
  overflows, and only then converted to \<^verbatim>\<open>uint64_t\<close>. Whatever \<^verbatim>\<open>int\<close> the negation
  yields, the block does not hold the varint of \<open>2 ^ 31\<close>, the absolute value; where the
  negation wraps around, it holds the ten bytes of the varint of \<open>2 ^ 64 - 2 ^ 31\<close>.
\<close>

theorem least_int_not_magnitude:
  "sint (0x80000000 :: 32 word) = - (2 ^ 31)
   \<and> get_type (assign_signed ov (0x80000000 :: 32 word) p) = svarint_field
   \<and> get_value (assign_signed ov (0x80000000 :: 32 word) p) \<noteq> Buf (varint_spec (2 ^ 31))
   \<and> assign_signed 0x80000000 (0x80000000 :: 32 word) p
       = Pson svarint_field (Buf [0x80, 0x80, 0x80, 0x80, 0xF8, 0xFF, 0xFF, 0xFF, 0xFF, 0x01])
   \<and> varint_spec (2 ^ 31) = [0x80, 0x80, 0x80, 0x80, 0x08]"
proof (intro conjI)
  show "sint (0x80000000 :: 32 word) = - (2 ^ 31)" by simp
  have l: "c_neg ov (0x80000000 :: 32 word) = ov" by (simp add: c_neg_def)
  have n: "(0x80000000 :: 32 word) <s 0" "\<not> 0 <s (0x80000000 :: 32 word)"
    by (simp_all add: word_sless_alt)
  have a: "assign_signed ov (0x80000000 :: 32 word) p
             = Pson svarint_field (Buf (varint_spec (unat (scast ov :: 64 word))))"
    by (simp add: assign_signed_def Let_def l n pson_pb_encode_varint_spec)
  show "get_type (assign_signed ov (0x80000000 :: 32 word) p) = svarint_field"
    by (simp add: a)
  show "get_value (assign_signed ov (0x80000000 :: 32 word) p) \<noteq> Buf (varint_spec (2 ^ 31))"
    using varint_spec_inj [of "unat (scast ov :: 64 word)" "2 ^ 31"] scast_int_not_2p31 [of ov]
    by (auto simp: a)
  have l': "c_neg 0x80000000 (0x80000000 :: 32 word) = 0x80000000" by (simp add: c_neg_def)
  show "assign_signed 0x80000000 (0x80000000 :: 32 word) p
       = Pson svarint_field (Buf [0x80, 0x80, 0x80, 0x80, 0xF8, 0xFF, 0xFF, 0xFF, 0xFF, 0x01])"
    by (simp add: assign_signed_def Let_def l' n pson_pb_encode_varint.simps)
  show "varint_spec (2 ^ 31) = [0x80, 0x80, 0x80, 0x80, 0x08]"
    by (simp add: varint_spec.simps)
qed

section \<open>The counting pass and the real pass of the encoder\<close>

























lemma two_pass_example:
  "encode write_mem
     (Pson array_field (Arr [Pson varint_field (Buf [0xAC, 0x02]), Pson true_field Null]))
     pson_encoder
   = Some \<lparr>out = [0x62, 0x04, 0x08, 0xAC, 0x02, 0x28], bytes_written = 6\<rparr>"
  by (simp add: encode.simps encode_array.simps pb_encode_tag_def pb_encode_varint.simps
      write_mem_def write_base_def pson_encoder_def)


end
